theory Spec2Isabelle
  imports Complex_Main "HOL-Library.Word"
begin

section \<open>Numeric model\<close>

text \<open>
  The program computes with \<^verbatim>\<open>double\<close>, \<^verbatim>\<open>float\<close> and \<^verbatim>\<open>std::complex<double>\<close>.
  They are modelled by \<^typ>\<open>real\<close> and \<^typ>\<open>complex\<close>: the arithmetic is exact, and
  rounding, infinities and NaN are outside the model. \<^verbatim>\<open>size_t\<close> values are
  \<^typ>\<open>nat\<close> (no wrap-around), \<^verbatim>\<open>int\<close> values are \<^typ>\<open>int\<close> with the 32-bit range
  checked where a conversion or an addition could leave it, and a byte of the raster
  is an \<^typ>\<open>8 word\<close>.
\<close>

text \<open>C++ integer division and remainder truncate towards zero.\<close>

definition c_div :: "int \<Rightarrow> int \<Rightarrow> int" where
  "c_div a b = sgn a * sgn b * (\<bar>a\<bar> div \<bar>b\<bar>)"

definition c_mod :: "int \<Rightarrow> int \<Rightarrow> int" where
  "c_mod a b = a - c_div a b * b"

text \<open>A conversion from a floating-point value to an integer type drops the fraction.\<close>

definition c_trunc :: "real \<Rightarrow> int" where
  "c_trunc v = (if 0 \<le> v then \<lfloor>v\<rfloor> else \<lceil>v\<rceil>)"

datatype fault =
    Undefined_Conversion
  | Signed_Overflow
  | Out_Of_Bounds
  | Division_By_Zero

text \<open>\<^verbatim>\<open>(int)v\<close>: undefined when the truncated value is not an \<^verbatim>\<open>int\<close>.\<close>

definition to_int :: "real \<Rightarrow> fault + int" where
  "to_int v = (if - (2 ^ 31) \<le> c_trunc v \<and> c_trunc v < 2 ^ 31
               then Inr (c_trunc v) else Inl Undefined_Conversion)"

text \<open>\<^verbatim>\<open>(unsigned char)v\<close>: undefined when the truncated value is not a byte.\<close>

definition to_uchar :: "real \<Rightarrow> fault + 8 word" where
  "to_uchar v = (if 0 \<le> c_trunc v \<and> c_trunc v \<le> 255
                 then Inr (word_of_int (c_trunc v)) else Inl Undefined_Conversion)"

text \<open>
  \<^verbatim>\<open>(size_t)v\<close> of a \<^verbatim>\<open>double\<close>. The program converts the width of the window, which
  is not negative; for a negative value, where C++ leaves the conversion undefined, the
  model gives 0.
\<close>

definition to_size_t :: "real \<Rightarrow> nat" where
  "to_size_t v = nat (c_trunc v)"

text \<open>\<^verbatim>\<open>a + b\<close> on \<^verbatim>\<open>int\<close>: undefined on overflow.\<close>

definition int_add :: "int \<Rightarrow> int \<Rightarrow> fault + int" where
  "int_add a b = (if - (2 ^ 31) \<le> a + b \<and> a + b < 2 ^ 31
                  then Inr (a + b) else Inl Signed_Overflow)"

section \<open>FractalRenderer: data\<close>

datatype Color = Color (color_r: real) (color_g: real) (color_b: real)

text \<open>\<^verbatim>\<open>Color::operator *\<close> and \<^verbatim>\<open>Color::operator +\<close>.\<close>

definition color_times :: "Color \<Rightarrow> real \<Rightarrow> Color" where
  "color_times c factor = Color (color_r c * factor) (color_g c * factor) (color_b c * factor)"

definition color_plus :: "Color \<Rightarrow> Color \<Rightarrow> Color" where
  "color_plus c other =
     Color (color_r c + color_r other) (color_g c + color_g other) (color_b c + color_b other)"

record Job =
  y_start :: nat
  y_count :: nat
  scale :: real
  offset :: complex

definition max_iterations :: nat where
  "max_iterations = 1000"

definition max_colors :: nat where
  "max_colors = 50"

section \<open>The pixel kernel\<close>

text \<open>Lines 88 to 92: the point \<open>c\<close> of the pixel \<open>(_x, _y)\<close>.\<close>

definition pixel_c :: "real \<Rightarrow> real \<Rightarrow> Job \<Rightarrow> nat \<Rightarrow> nat \<Rightarrow> complex" where
  "pixel_c texture_width texture_height job x y =
     (let c = Complex ((real x / texture_width) * 2 - 1) ((real y / texture_height) * 2 - 1);
          c = Complex (Re c * scale job) (Im c * scale job)
      in c + offset job)"

text \<open>
  Lines 96 to 98: the early-out tests. The literals \<^verbatim>\<open>1/4\<close> and \<^verbatim>\<open>1/16\<close> are
  divisions of \<^verbatim>\<open>int\<close>, converted to \<^verbatim>\<open>double\<close> afterwards.
\<close>

definition cardioid_q :: "complex \<Rightarrow> real" where
  "cardioid_q z =
     (Re z - of_int (c_div 1 4)) * (Re z - of_int (c_div 1 4)) + Im z * Im z"

definition inside_cardioid :: "complex \<Rightarrow> bool" where
  "inside_cardioid z =
     (cardioid_q z * (cardioid_q z + (Re z - of_int (c_div 1 4)))
        < of_int (c_div 1 4) * Im z * Im z)"

definition inside_period2_bulb :: "complex \<Rightarrow> bool" where
  "inside_period2_bulb z =
     ((Re z + 1) * (Re z + 1) + Im z * Im z < of_int (c_div 1 16))"

text \<open>Line 101: the condition under which the iteration loop runs.\<close>

definition loop_branch :: "complex \<Rightarrow> bool" where
  "loop_branch z = (\<not> inside_cardioid z \<or> \<not> inside_period2_bulb z)"

text \<open>Lines 103 to 107: the escape loop, on the pair \<open>(z, i)\<close>.\<close>

function escape_loop :: "complex \<Rightarrow> complex \<Rightarrow> nat \<Rightarrow> complex \<times> nat" where
  "escape_loop c z i =
     (if i < max_iterations \<and> Re z * Re z + Im z * Im z < 2 * 2
      then escape_loop c (z * z + c) (i + 1)
      else (z, i))"
  by pat_completeness auto
termination
  by (relation "measure (\<lambda>(c, z, i). max_iterations - i)") auto

text \<open>Lines 94 to 112: \<open>z\<close> starts at zero, the tests are made on \<open>z\<close>.\<close>

definition escape :: "complex \<Rightarrow> complex \<times> nat" where
  "escape c =
     (let z = Complex 0 0
      in if loop_branch z then escape_loop c z 0 else (z, max_iterations))"

text \<open>Line 118: the smoothed escape count. C++ \<^verbatim>\<open>log\<close> is the natural logarithm.\<close>

definition smoothed :: "complex \<Rightarrow> nat \<Rightarrow> real" where
  "smoothed z i =
     real i + (ln (ln (real max_iterations)) - ln (ln (cmod z))) / ln 2"

text \<open>Line 114: the test that sends a pixel to \<^verbatim>\<open>WritePixel(_x, _y, -1, 0, 0.0)\<close>.\<close>

definition inside :: "complex \<Rightarrow> nat \<Rightarrow> bool" where
  "inside z i = (Re z * Re z + Im z * Im z < 2 * 2 \<or> i = max_iterations)"

text \<open>
  Lines 114 to 124: the arguments \<open>(first, second, factor)\<close> that the kernel passes to
  \<^verbatim>\<open>WritePixel\<close>.
\<close>

definition pixel_args :: "complex \<Rightarrow> nat \<Rightarrow> fault + (int \<times> int \<times> real)" where
  "pixel_args z i =
     (if inside z i then Inr (- 1, 0, 0)
      else
        (let s = smoothed z i
         in case to_int s of
              Inl e \<Rightarrow> Inl e
            | Inr first \<Rightarrow>
                (case int_add first 1 of
                   Inl e \<Rightarrow> Inl e
                 | Inr second \<Rightarrow> Inr (first, second, s - of_int first))))"

section \<open>WritePixel\<close>

text \<open>A read of \<^verbatim>\<open>color_ramp[k]\<close> and a write of \<^verbatim>\<open>texture_data[k]\<close>, with their bounds.\<close>

definition ramp_at :: "Color list \<Rightarrow> int \<Rightarrow> fault + Color" where
  "ramp_at color_ramp k =
     (if 0 \<le> k \<and> k < int (length color_ramp) then Inr (color_ramp ! nat k)
      else Inl Out_Of_Bounds)"

definition store :: "8 word list \<Rightarrow> nat \<Rightarrow> 8 word \<Rightarrow> fault + 8 word list" where
  "store texture_data k v =
     (if k < length texture_data then Inr (texture_data[k := v]) else Inl Out_Of_Bounds)"

text \<open>Lines 160 to 164: the colour of the pixel.\<close>

definition pixel_color :: "Color list \<Rightarrow> int \<Rightarrow> int \<Rightarrow> real \<Rightarrow> fault + Color" where
  "pixel_color color_ramp first second factor =
     (if first = - 1 then Inr (Color 0 0 0)
      else
        (case ramp_at color_ramp (c_mod second (int max_colors * 2)) of
           Inl e \<Rightarrow> Inl e
         | Inr c2 \<Rightarrow>
             (case ramp_at color_ramp (c_mod first (int max_colors * 2)) of
                Inl e \<Rightarrow> Inl e
              | Inr c1 \<Rightarrow>
                  Inr (color_plus (color_times c2 factor) (color_times c1 (1 - factor))))))"

text \<open>
  Lines 156 to 169. \<open>W\<close> is \<^verbatim>\<open>(size_t)texture_width\<close>; the three stores are made in
  the order of the source.
\<close>

definition WritePixel ::
  "nat \<Rightarrow> Color list \<Rightarrow> 8 word list \<Rightarrow> nat \<Rightarrow> nat \<Rightarrow> int \<Rightarrow> int \<Rightarrow> real \<Rightarrow> fault + 8 word list"
where
  "WritePixel W color_ramp texture_data x y first second factor =
     (let offset = y * W + x
      in case pixel_color color_ramp first second factor of
           Inl e \<Rightarrow> Inl e
         | Inr color \<Rightarrow>
         (case to_uchar (color_r color * 255) of
            Inl e \<Rightarrow> Inl e
          | Inr vr \<Rightarrow>
          (case store texture_data (offset * 3 + 0) vr of
             Inl e \<Rightarrow> Inl e
           | Inr t0 \<Rightarrow>
           (case to_uchar (color_g color * 255) of
              Inl e \<Rightarrow> Inl e
            | Inr vg \<Rightarrow>
            (case store t0 (offset * 3 + 1) vg of
               Inl e \<Rightarrow> Inl e
             | Inr t1 \<Rightarrow>
             (case to_uchar (color_b color * 255) of
                Inl e \<Rightarrow> Inl e
              | Inr vb \<Rightarrow> store t1 (offset * 3 + 2) vb))))))"

section \<open>The band worker's loops\<close>

record FractalRenderer =
  texture_width :: real
  texture_height :: real
  color_ramp :: "Color list"
  current_job :: Job
  job_done :: bool
  running :: bool

text \<open>
  The worker's \<^verbatim>\<open>texture_data\<close> is a pointer to the raster that the application owns
  and both workers share; the raster is passed to the worker's functions and returned
  by them.
\<close>

text \<open>The constructor, lines 44 to 47. The job is not initialised by it.\<close>

definition new_renderer :: "Color list \<Rightarrow> real \<Rightarrow> real \<Rightarrow> Job \<Rightarrow> FractalRenderer" where
  "new_renderer ramp width height uninitialised =
     \<lparr>texture_width = width, texture_height = height, color_ramp = ramp,
      current_job = uninitialised, job_done = False, running = True\<rparr>"

text \<open>
  Lines 88 to 124, the body of the inner loop for one pixel. A division by a
  \<^verbatim>\<open>texture_width\<close> or \<^verbatim>\<open>texture_height\<close> of 0.0 gives an infinity or a NaN, for
  which the model has no value: it is reported as a fault.
\<close>

definition render_pixel :: "FractalRenderer \<Rightarrow> 8 word list \<Rightarrow> nat \<Rightarrow> nat \<Rightarrow> fault + 8 word list" where
  "render_pixel w texture_data x y =
     (if texture_width w = 0 \<or> texture_height w = 0 then Inl Division_By_Zero
      else
        (let c = pixel_c (texture_width w) (texture_height w) (current_job w) x y;
             (z, i) = escape c
         in case pixel_args z i of
              Inl e \<Rightarrow> Inl e
            | Inr (first, second, factor) \<Rightarrow>
                WritePixel (to_size_t (texture_width w)) (color_ramp w) texture_data
                  x y first second factor))"

text \<open>A counted \<^verbatim>\<open>for\<close> loop over the values \<open>ks\<close>, stopping at the first fault.\<close>

fun for_loop :: "'a list \<Rightarrow> ('a \<Rightarrow> 's \<Rightarrow> fault + 's) \<Rightarrow> 's \<Rightarrow> fault + 's" where
  "for_loop [] body s = Inr s"
| "for_loop (k # ks) body s =
     (case body k s of Inl e \<Rightarrow> Inl e | Inr s' \<Rightarrow> for_loop ks body s')"

text \<open>Line 86: the columns of a row. Line 84: the rows of a job.\<close>

definition row_columns :: "FractalRenderer \<Rightarrow> nat list" where
  "row_columns w = [0 ..< to_size_t (texture_width w)]"

definition job_rows :: "Job \<Rightarrow> nat list" where
  "job_rows job = [y_start job ..< y_start job + y_count job]"

definition render_row :: "FractalRenderer \<Rightarrow> nat \<Rightarrow> 8 word list \<Rightarrow> fault + 8 word list" where
  "render_row w y texture_data =
     for_loop (row_columns w) (\<lambda>x t. render_pixel w t x y) texture_data"

text \<open>Lines 84 to 126: one job, its rows from top to bottom.\<close>

definition render_job :: "FractalRenderer \<Rightarrow> 8 word list \<Rightarrow> fault + 8 word list" where
  "render_job w texture_data =
     for_loop (job_rows (current_job w)) (\<lambda>y t. render_row w y t) texture_data"

text \<open>
  The bytes that lines 88 to 124 and 160 to 168 compute for the pixel \<open>(x, y)\<close>, without
  the stores into the raster: a function of \<open>x\<close>, \<open>y\<close>, the size of the raster, the
  scale and offset of the job, and the ramp.
\<close>

definition pixel_bytes ::
  "real \<Rightarrow> real \<Rightarrow> Color list \<Rightarrow> real \<Rightarrow> complex \<Rightarrow> nat \<Rightarrow> nat \<Rightarrow> fault + (8 word \<times> 8 word \<times> 8 word)"
where
  "pixel_bytes width height ramp sc off x y =
     (if width = 0 \<or> height = 0 then Inl Division_By_Zero
      else
        (let c = pixel_c width height \<lparr>y_start = 0, y_count = 0, scale = sc, offset = off\<rparr> x y;
             (z, i) = escape c
         in case pixel_args z i of
              Inl e \<Rightarrow> Inl e
            | Inr (first, second, factor) \<Rightarrow>
            (case pixel_color ramp first second factor of
               Inl e \<Rightarrow> Inl e
             | Inr color \<Rightarrow>
             (case to_uchar (color_r color * 255) of
                Inl e \<Rightarrow> Inl e
              | Inr vr \<Rightarrow>
              (case to_uchar (color_g color * 255) of
                 Inl e \<Rightarrow> Inl e
               | Inr vg \<Rightarrow>
               (case to_uchar (color_b color * 255) of
                  Inl e \<Rightarrow> Inl e
                | Inr vb \<Rightarrow> Inr (vr, vg, vb)))))))"

text \<open>
  The jobs \<open>js\<close> run one after the other on the raster: \<^verbatim>\<open>setJob\<close> and one pass of the
  worker's loops for each of them.
\<close>

fun run_jobs :: "FractalRenderer \<Rightarrow> Job list \<Rightarrow> 8 word list \<Rightarrow> fault + 8 word list" where
  "run_jobs w [] texture_data = Inr texture_data"
| "run_jobs w (j # js) texture_data =
     (case render_job (w\<lparr>current_job := j\<rparr>) texture_data of
        Inl e \<Rightarrow> Inl e
      | Inr t \<Rightarrow> run_jobs w js t)"

text \<open>
  Lines 158 and 166 to 168: the three bytes of the pixel \<open>(x, y)\<close> in a raster whose rows
  have \<open>W\<close> pixels.
\<close>

definition pixel_at :: "nat \<Rightarrow> 8 word list \<Rightarrow> nat \<Rightarrow> nat \<Rightarrow> 8 word \<times> 8 word \<times> 8 word" where
  "pixel_at W texture_data x y =
     (let offset = y * W + x
      in (texture_data ! (offset * 3 + 0), texture_data ! (offset * 3 + 1),
          texture_data ! (offset * 3 + 2)))"

text \<open>The pixels that the loops of lines 84 and 86 visit for a job, in their order.\<close>

definition job_pixels :: "FractalRenderer \<Rightarrow> Job \<Rightarrow> (nat \<times> nat) list" where
  "job_pixels w job = concat (map (\<lambda>y. map (\<lambda>x. (x, y)) (row_columns w)) (job_rows job))"

section \<open>Application::run: the palette and the jobs\<close>

text \<open>
  Lines 222 to 229. \<^verbatim>\<open>color_ramp\<close> is an array of \<^verbatim>\<open>max_colors*2\<close> colours that the
  loop fills; the list given to \<open>build_ramp\<close> is the array before the loop.
\<close>

definition ramp_color :: "nat \<Rightarrow> Color" where
  "ramp_color i =
     (let factor = real i / real max_colors;
          inverse_factor = real (max_colors - i) / real max_colors
      in Color (sqrt (sqrt factor)) factor (inverse_factor * 0.5))"

definition ramp_step :: "nat \<Rightarrow> Color list \<Rightarrow> Color list" where
  "ramp_step i ramp =
     (let ramp = ramp[i := ramp_color i]
      in ramp[max_colors * 2 - 1 - i := ramp ! i])"

definition build_ramp :: "Color list \<Rightarrow> Color list" where
  "build_ramp ramp = fold ramp_step [0 ..< max_colors] ramp"

text \<open>
  Lines 234 to 244: the two jobs, for a window of height \<open>height\<close>
  (\<^verbatim>\<open>window.getHeight()\<close>, whose declaration is not part of the sources; a height is
  not negative, so the division by 2 rounds down).
\<close>

definition start_offset :: complex where
  "start_offset = Complex 0.001643721971153 0.822467633298876"

definition first_jobs :: "nat \<Rightarrow> Job \<times> Job" where
  "first_jobs height =
     (let job = \<lparr>y_start = 0, y_count = height div 2, scale = 2, offset = start_offset\<rparr>;
          y_start2 = height div 2;
          job2 = \<lparr>y_start = y_start2, y_count = height - y_start2, scale = 2,
                  offset = start_offset\<rparr>
      in (job, job2))"

text \<open>
  Lines 262 to 268: the jobs of the next frame, \<open>elapsed\<close> being the value that line
  256 computes from the timer.
\<close>

definition next_jobs :: "real \<Rightarrow> Job \<times> Job \<Rightarrow> Job \<times> Job" where
  "next_jobs elapsed jobs =
     (let job = fst jobs; job2 = snd jobs;
          job = job\<lparr>scale := 1 / (elapsed * (1 / scale job))\<rparr>;
          job = (if scale job < 0.00000000001 then job\<lparr>scale := 0.00000000001\<rparr> else job);
          job2 = job2\<lparr>scale := scale job\<rparr>
      in (job, job2))"

text \<open>The jobs published after the frames whose timer values are \<open>es\<close>.\<close>

definition published_jobs :: "nat \<Rightarrow> real list \<Rightarrow> Job \<times> Job" where
  "published_jobs height es = fold next_jobs es (first_jobs height)"

section \<open>The program: two workers and the application\<close>

text \<open>
  The threads of the program as a transition system. A step is one atomic action of
  one thread: a critical section of a \<^verbatim>\<open>lock_guard\<close>, an unprotected assignment, a loop
  test, or the body of the inner loop for one pixel. The steps of the three threads
  interleave in any order, on one memory that all threads see in the same state.
\<close>

datatype wid = Worker | Worker2

text \<open>Where a worker is in \<^verbatim>\<open>operator()\<close>, lines 70 to 139.\<close>

datatype worker_pc =
    Not_Started
  | Check
  | Branch bool
  | Row nat
  | Pixel nat nat
  | Finish
  | Read_Running
  | Exited
  | Crashed fault

text \<open>
  Where the application is in \<^verbatim>\<open>run\<close>, lines 246 to 278. \<^verbatim>\<open>setJob\<close> is two actions:
  the assignment of line 53, outside the lock, and the critical section of lines 54
  and 55.
\<close>

datatype app_pc =
    Init_Assign wid
  | Init_Clear wid
  | Spawn wid
  | Poll wid
  | Update
  | Assign wid
  | Clear wid
  | Stop wid
  | Join

text \<open>
  The state: the two workers, the raster they share, the place of each thread, the
  application's variables \<^verbatim>\<open>job\<close> and \<^verbatim>\<open>job2\<close>, and for each worker the pixels it has
  written since its \<^verbatim>\<open>job_done\<close> was last cleared by \<^verbatim>\<open>setJob\<close> (a history variable:
  no action reads it).
\<close>

record program =
  renderer :: "wid \<Rightarrow> FractalRenderer"
  raster :: "8 word list"
  worker_at :: "wid \<Rightarrow> worker_pc"
  app_at :: app_pc
  app_jobs :: "Job \<times> Job"
  written :: "wid \<Rightarrow> (nat \<times> nat) set"

definition job_for :: "wid \<Rightarrow> Job \<times> Job \<Rightarrow> Job" where
  "job_for k js = (case k of Worker \<Rightarrow> fst js | Worker2 \<Rightarrow> snd js)"

text \<open>
  Lines 231 to 244: both workers constructed on the ramp and the raster, their jobs
  not yet set, the threads not yet started.
\<close>

definition initial :: "Color list \<Rightarrow> nat \<Rightarrow> nat \<Rightarrow> 8 word list \<Rightarrow> Job \<Rightarrow> Job \<Rightarrow> program" where
  "initial ramp width height td j1 j2 =
     \<lparr>renderer = (\<lambda>k. new_renderer ramp (real width) (real height)
                         (case k of Worker \<Rightarrow> j1 | Worker2 \<Rightarrow> j2)),
      raster = td,
      worker_at = (\<lambda>k. Not_Started),
      app_at = Init_Assign Worker,
      app_jobs = first_jobs height,
      written = (\<lambda>k. {})\<rparr>"

text \<open>The three updates of a worker's fields that the steps make.\<close>

definition set_current_job :: "wid \<Rightarrow> Job \<Rightarrow> program \<Rightarrow> program" where
  "set_current_job k j s = s\<lparr>renderer := (renderer s)(k := (renderer s k)\<lparr>current_job := j\<rparr>)\<rparr>"

definition set_job_done :: "wid \<Rightarrow> bool \<Rightarrow> program \<Rightarrow> program" where
  "set_job_done k b s = s\<lparr>renderer := (renderer s)(k := (renderer s k)\<lparr>job_done := b\<rparr>)\<rparr>"

definition set_running :: "wid \<Rightarrow> bool \<Rightarrow> program \<Rightarrow> program" where
  "set_running k b s = s\<lparr>renderer := (renderer s)(k := (renderer s k)\<lparr>running := b\<rparr>)\<rparr>"

definition goto :: "wid \<Rightarrow> worker_pc \<Rightarrow> program \<Rightarrow> program" where
  "goto k pc s = s\<lparr>worker_at := (worker_at s)(k := pc)\<rparr>"

inductive step :: "program \<Rightarrow> program \<Rightarrow> bool" where
  init_assign: \<comment> \<open>lines 246 and 247, \<^verbatim>\<open>setJob\<close> line 53\<close>
    "app_at s = Init_Assign k \<Longrightarrow>
     step s (set_current_job k (job_for k (app_jobs s)) (s\<lparr>app_at := Init_Clear k\<rparr>))"
| init_clear: \<comment> \<open>lines 246 and 247, \<^verbatim>\<open>setJob\<close> lines 54 and 55\<close>
    "app_at s = Init_Clear k \<Longrightarrow>
     step s (set_job_done k False
       (s\<lparr>app_at := (case k of Worker \<Rightarrow> Init_Assign Worker2 | Worker2 \<Rightarrow> Spawn Worker),
          written := (written s)(k := {})\<rparr>))"
| spawn: \<comment> \<open>lines 249 and 250\<close>
    "app_at s = Spawn k \<Longrightarrow>
     step s (goto k Check
       (s\<lparr>app_at := (case k of Worker \<Rightarrow> Spawn Worker2 | Worker2 \<Rightarrow> Poll Worker)\<rparr>))"
| poll_done: \<comment> \<open>line 258, \<^verbatim>\<open>jobDone()\<close> returns true\<close>
    "app_at s = Poll k \<Longrightarrow> job_done (renderer s k) \<Longrightarrow>
     step s (s\<lparr>app_at := (case k of Worker \<Rightarrow> Poll Worker2 | Worker2 \<Rightarrow> Update)\<rparr>)"
| poll_busy: \<comment> \<open>line 258, \<^verbatim>\<open>jobDone()\<close> returns false; lines 271 to 273\<close>
    "app_at s = Poll k \<Longrightarrow> \<not> job_done (renderer s k) \<Longrightarrow>
     step s (s\<lparr>app_at := Poll Worker\<rparr>)"
| update: \<comment> \<open>lines 260 to 264 and 267, for any value of the timer\<close>
    "app_at s = Update \<Longrightarrow>
     step s (s\<lparr>app_jobs := next_jobs elapsed (app_jobs s), app_at := Assign Worker\<rparr>)"
| assign: \<comment> \<open>lines 265 and 268, \<^verbatim>\<open>setJob\<close> line 53\<close>
    "app_at s = Assign k \<Longrightarrow>
     step s (set_current_job k (job_for k (app_jobs s)) (s\<lparr>app_at := Clear k\<rparr>))"
| clear: \<comment> \<open>lines 265 and 268, \<^verbatim>\<open>setJob\<close> lines 54 and 55\<close>
    "app_at s = Clear k \<Longrightarrow>
     step s (set_job_done k False
       (s\<lparr>app_at := (case k of Worker \<Rightarrow> Assign Worker2 | Worker2 \<Rightarrow> Poll Worker),
          written := (written s)(k := {})\<rparr>))"
| close: \<comment> \<open>line 253, the window was closed\<close>
    "app_at s = Poll Worker \<Longrightarrow> step s (s\<lparr>app_at := Stop Worker\<rparr>)"
| stop: \<comment> \<open>lines 275 and 276\<close>
    "app_at s = Stop k \<Longrightarrow>
     step s (set_running k False
       (s\<lparr>app_at := (case k of Worker \<Rightarrow> Stop Worker2 | Worker2 \<Rightarrow> Join)\<rparr>))"
| check: \<comment> \<open>lines 76 to 80\<close>
    "worker_at s k = Check \<Longrightarrow> step s (goto k (Branch (job_done (renderer s k))) s)"
| idle: \<comment> \<open>lines 131 to 134\<close>
    "worker_at s k = Branch True \<Longrightarrow> step s (goto k Read_Running s)"
| begin_job: \<comment> \<open>lines 82 and 84, \<^verbatim>\<open>_y = current_job.y_start\<close>\<close>
    "worker_at s k = Branch False \<Longrightarrow>
     step s (goto k (Row (y_start (current_job (renderer s k)))) s)"
| row: \<comment> \<open>line 84, the test holds; line 86, \<^verbatim>\<open>_x = 0\<close>\<close>
    "worker_at s k = Row y \<Longrightarrow>
     y < y_start (current_job (renderer s k)) + y_count (current_job (renderer s k)) \<Longrightarrow>
     step s (goto k (Pixel y 0) s)"
| rows_done: \<comment> \<open>line 84, the test fails\<close>
    "worker_at s k = Row y \<Longrightarrow>
     \<not> y < y_start (current_job (renderer s k)) + y_count (current_job (renderer s k)) \<Longrightarrow>
     step s (goto k Finish s)"
| pixel: \<comment> \<open>line 86, the test holds; lines 88 to 124\<close>
    "worker_at s k = Pixel y x \<Longrightarrow> x < to_size_t (texture_width (renderer s k)) \<Longrightarrow>
     render_pixel (renderer s k) (raster s) x y = Inr t \<Longrightarrow>
     step s (goto k (Pixel y (x + 1))
       (s\<lparr>raster := t, written := (written s)(k := insert (x, y) (written s k))\<rparr>))"
| pixel_fault: \<comment> \<open>the same, with undefined behaviour in the body\<close>
    "worker_at s k = Pixel y x \<Longrightarrow> x < to_size_t (texture_width (renderer s k)) \<Longrightarrow>
     render_pixel (renderer s k) (raster s) x y = Inl e \<Longrightarrow>
     step s (goto k (Crashed e) s)"
| row_done: \<comment> \<open>line 86, the test fails; line 84, \<^verbatim>\<open>++_y\<close>\<close>
    "worker_at s k = Pixel y x \<Longrightarrow> \<not> x < to_size_t (texture_width (renderer s k)) \<Longrightarrow>
     step s (goto k (Row (y + 1)) s)"
| finish: \<comment> \<open>lines 128 and 129\<close>
    "worker_at s k = Finish \<Longrightarrow> step s (goto k Read_Running (set_job_done k True s))"
| again: \<comment> \<open>lines 136 to 138, \<^verbatim>\<open>running\<close> is true\<close>
    "worker_at s k = Read_Running \<Longrightarrow> running (renderer s k) \<Longrightarrow>
     step s (goto k Check s)"
| leave: \<comment> \<open>lines 136 to 138, \<^verbatim>\<open>running\<close> is false\<close>
    "worker_at s k = Read_Running \<Longrightarrow> \<not> running (renderer s k) \<Longrightarrow>
     step s (goto k Exited s)"

text \<open>The states of the program's runs, for any ramp, window size and raster.\<close>

inductive reachable :: "program \<Rightarrow> bool" where
  at_start: "reachable (initial ramp width height td j1 j2)"
| after_step: "reachable s \<Longrightarrow> step s s' \<Longrightarrow> reachable s'"

text \<open>
  The invariants of the program's runs. \<open>knows_done a k\<close>: at the place \<open>a\<close> the
  application has seen \<^verbatim>\<open>jobDone()\<close> return true for worker \<open>k\<close> and has not cleared
  the flag since. \<open>rendering pc\<close>: the worker is between the test of line 82 and the
  end of line 129. \<open>starting a\<close>: the application is in the calls of lines 246 and 247.
\<close>

definition knows_done :: "app_pc \<Rightarrow> wid \<Rightarrow> bool" where
  "knows_done a k =
     (a = Update \<or> a = Assign Worker \<or> a = Clear Worker \<or> (a = Poll Worker2 \<and> k = Worker)
      \<or> (a = Assign Worker2 \<and> k = Worker2) \<or> (a = Clear Worker2 \<and> k = Worker2))"

definition rendering :: "worker_pc \<Rightarrow> bool" where
  "rendering pc =
     (case pc of Branch b \<Rightarrow> \<not> b | Row y \<Rightarrow> True | Pixel y x \<Rightarrow> True | Finish \<Rightarrow> True
      | _ \<Rightarrow> False)"

definition starting :: "app_pc \<Rightarrow> bool" where
  "starting a = (case a of Init_Assign k \<Rightarrow> True | Init_Clear k \<Rightarrow> True | _ \<Rightarrow> False)"

definition flag_inv :: "program \<Rightarrow> wid \<Rightarrow> bool" where
  "flag_inv s k =
     ((starting (app_at s) \<longrightarrow> worker_at s k = Not_Started)
      \<and> (worker_at s k = Not_Started \<longrightarrow> \<not> job_done (renderer s k))
      \<and> (knows_done (app_at s) k \<longrightarrow> job_done (renderer s k))
      \<and> (rendering (worker_at s k) \<longrightarrow> \<not> job_done (renderer s k)))"

text \<open>
  \<open>rows_written s k y\<close>: worker \<open>k\<close> has written every pixel of the rows from the start
  of its job up to row \<open>y\<close>, exclusive. \<open>band_written s k\<close>: it has written every pixel
  of its job.
\<close>

definition rows_written :: "program \<Rightarrow> wid \<Rightarrow> nat \<Rightarrow> bool" where
  "rows_written s k y =
     (\<forall>y' x'. y_start (current_job (renderer s k)) \<le> y' \<and> y' < y \<and>
              x' < to_size_t (texture_width (renderer s k)) \<longrightarrow> (x', y') \<in> written s k)"

definition band_written :: "program \<Rightarrow> wid \<Rightarrow> bool" where
  "band_written s k =
     (set (job_pixels (renderer s k) (current_job (renderer s k))) \<subseteq> written s k)"

definition band_inv :: "program \<Rightarrow> wid \<Rightarrow> bool" where
  "band_inv s k =
     ((\<forall>y. worker_at s k = Row y \<longrightarrow>
          y_start (current_job (renderer s k)) \<le> y \<and> rows_written s k y)
      \<and> (\<forall>y x. worker_at s k = Pixel y x \<longrightarrow>
          y_start (current_job (renderer s k)) \<le> y \<and> rows_written s k y \<and>
          (\<forall>x'. x' < x \<and> x' < to_size_t (texture_width (renderer s k)) \<longrightarrow>
                (x', y) \<in> written s k))
      \<and> (worker_at s k = Finish \<longrightarrow> band_written s k)
      \<and> (job_done (renderer s k) \<and> app_at s \<noteq> Clear k \<longrightarrow> band_written s k))"

text \<open>
  \<open>assigned a k\<close>: at the place \<open>a\<close> the application has made the assignment of line
  53 for worker \<open>k\<close> at least once. \<open>geom_inv s\<close>: the band of \<^verbatim>\<open>job\<close> ends where the band of
  \<^verbatim>\<open>job2\<close> starts or before it, both workers have the same \<^verbatim>\<open>texture_width\<close>, and the
  rows of a worker's \<^verbatim>\<open>current_job\<close> are those of the application's job for it.
\<close>

definition assigned :: "app_pc \<Rightarrow> wid \<Rightarrow> bool" where
  "assigned a k =
     (case k of
        Worker \<Rightarrow> a \<noteq> Init_Assign Worker
      | Worker2 \<Rightarrow> a \<noteq> Init_Assign Worker \<and> a \<noteq> Init_Clear Worker \<and> a \<noteq> Init_Assign Worker2)"

definition geom_inv :: "program \<Rightarrow> bool" where
  "geom_inv s =
     (y_start (fst (app_jobs s)) + y_count (fst (app_jobs s)) \<le> y_start (snd (app_jobs s))
      \<and> texture_width (renderer s Worker2) = texture_width (renderer s Worker)
      \<and> (\<forall>k. assigned (app_at s) k \<longrightarrow>
             y_start (current_job (renderer s k)) = y_start (job_for k (app_jobs s)) \<and>
             y_count (current_job (renderer s k)) = y_count (job_for k (app_jobs s))))"

text \<open>
  \<open>pixel_stored s k x y\<close>: the three bytes of the pixel \<open>(x, y)\<close> in the raster are the
  bytes that lines 88 to 124 and 160 to 168 compute for it from the \<^verbatim>\<open>current_job\<close> of
  worker \<open>k\<close>. \<open>stored_inv s k\<close>: outside \<^verbatim>\<open>setJob\<close>, every pixel that the worker has
  written since its flag was last cleared lies in the band of its job and is stored in
  the raster; and the row of the inner loop lies in the band.
\<close>

definition pixel_stored :: "program \<Rightarrow> wid \<Rightarrow> nat \<Rightarrow> nat \<Rightarrow> bool" where
  "pixel_stored s k x y =
     (pixel_bytes (texture_width (renderer s k)) (texture_height (renderer s k))
        (color_ramp (renderer s k)) (scale (current_job (renderer s k)))
        (offset (current_job (renderer s k))) x y
      = Inr (pixel_at (to_size_t (texture_width (renderer s k))) (raster s) x y))"

definition stored_inv :: "program \<Rightarrow> wid \<Rightarrow> bool" where
  "stored_inv s k =
     ((app_at s \<noteq> Clear k \<and> app_at s \<noteq> Init_Clear k \<longrightarrow>
         (\<forall>x y. (x, y) \<in> written s k \<longrightarrow>
            (x, y) \<in> set (job_pixels (renderer s k) (current_job (renderer s k))) \<and>
            pixel_stored s k x y))
      \<and> (\<forall>y x. worker_at s k = Pixel y x \<longrightarrow>
            y_start (current_job (renderer s k)) \<le> y \<and>
            y < y_start (current_job (renderer s k)) + y_count (current_job (renderer s k))))"

declare escape_loop.simps [simp del]

lemma escape_loop_step:
  "i < max_iterations \<Longrightarrow> Re z * Re z + Im z * Im z < 2 * 2 \<Longrightarrow>
   escape_loop c z i = escape_loop c (z * z + c) (i + 1)"
  by (subst escape_loop.simps) simp

lemma escape_loop_stop:
  "\<not> (i < max_iterations \<and> Re z * Re z + Im z * Im z < 2 * 2) \<Longrightarrow>
   escape_loop c z i = (z, i)"
  by (subst escape_loop.simps) auto

section \<open>The escape loop is bounded\<close>

lemma escape_loop_le:
  "i \<le> max_iterations \<Longrightarrow> snd (escape_loop c z i) \<le> max_iterations"
proof (induction c z i rule: escape_loop.induct)
  case (1 c z i)
  show ?case
  proof (cases "i < max_iterations \<and> Re z * Re z + Im z * Im z < 2 * 2")
    case True
    then have "snd (escape_loop c (z * z + c) (i + 1)) \<le> max_iterations"
      using "1.IH" by simp
    with True show ?thesis by (simp add: escape_loop_step)
  next
    case False
    with "1.prems" show ?thesis by (simp add: escape_loop_stop)
  qed
qed

lemma escape_loop_ge: "i \<le> snd (escape_loop c z i)"
proof (induction c z i rule: escape_loop.induct)
  case (1 c z i)
  show ?case
  proof (cases "i < max_iterations \<and> Re z * Re z + Im z * Im z < 2 * 2")
    case True
    then have "i + 1 \<le> snd (escape_loop c (z * z + c) (i + 1))"
      using "1.IH" by simp
    with True show ?thesis by (simp add: escape_loop_step)
  next
    case False
    then show ?thesis by (simp add: escape_loop_stop)
  qed
qed

section \<open>The early-out tests\<close>

lemma early_out_tests_false:
  "\<not> inside_cardioid (Complex 0 0)" "\<not> inside_period2_bulb (Complex 0 0)"
  by (simp_all add: inside_cardioid_def inside_period2_bulb_def cardioid_q_def c_div_def)

lemma loop_branch_zero: "loop_branch (Complex 0 0)"
  by (simp add: loop_branch_def early_out_tests_false)

lemma escape_is_loop: "escape c = escape_loop c (Complex 0 0) 0"
  by (simp add: escape_def loop_branch_zero)

lemma escape_loop_iterate:
  "\<exists>n. escape_loop c z i = (((\<lambda>z. z * z + c) ^^ n) z, i + n)"
proof (induction c z i rule: escape_loop.induct)
  case (1 c z i)
  show ?case
  proof (cases "i < max_iterations \<and> Re z * Re z + Im z * Im z < 2 * 2")
    case True
    then obtain n where
      "escape_loop c (z * z + c) (i + 1) = (((\<lambda>z. z * z + c) ^^ n) (z * z + c), i + 1 + n)"
      using "1.IH" by auto
    with True have "escape_loop c z i = (((\<lambda>z. z * z + c) ^^ Suc n) z, i + Suc n)"
      by (simp add: escape_loop_step funpow_Suc_right del: funpow.simps)
    then show ?thesis by blast
  next
    case False
    then have "escape_loop c z i = (((\<lambda>z. z * z + c) ^^ 0) z, i + 0)"
      by (simp add: escape_loop_stop)
    then show ?thesis by blast
  qed
qed

text \<open>
  C4. For every pixel input, whatever \<open>x\<close>, \<open>y\<close>, the raster size and the job's scale
  and offset are, the escape loop stops: it returns the \<open>n\<close>-fold iterate of
  \<open>z \<mapsto> z\<^sup>2 + c\<close> on zero together with \<open>n\<close>, for some \<open>n\<close> that is at most
  \<open>max_iterations\<close>, and \<open>max_iterations\<close> is 1000. (The count is a \<^verbatim>\<open>size_t\<close>, so it is
  never negative.)
\<close>

theorem escape_loop_terminates_bounded:
  "(\<exists>n. n \<le> max_iterations \<and>
        escape (pixel_c tw th job x y) =
          (((\<lambda>z. z * z + pixel_c tw th job x y) ^^ n) (Complex 0 0), n))
   \<and> 0 \<le> snd (escape (pixel_c tw th job x y))
   \<and> snd (escape (pixel_c tw th job x y)) \<le> max_iterations
   \<and> max_iterations = 1000"
proof -
  let ?c = "pixel_c tw th job x y"
  obtain n where n: "escape ?c = (((\<lambda>z. z * z + ?c) ^^ n) (Complex 0 0), n)"
    using escape_loop_iterate [of ?c "Complex 0 0" 0] escape_is_loop [of ?c] by auto
  have le: "snd (escape ?c) \<le> max_iterations"
    using escape_loop_le [of 0 ?c "Complex 0 0"] escape_is_loop [of ?c] by simp
  with n have "n \<le> max_iterations" by simp
  with n le show ?thesis by (auto simp: max_iterations_def)
qed

theorem escape_loop_terminates_bounded_witness:
  "snd (escape (pixel_c 1 1 \<lparr>y_start = 0, y_count = 1, scale = 2, offset = 0\<rparr> 0 0)) \<le> 1000"
  using escape_loop_terminates_bounded
    [of 1 1 "\<lparr>y_start = 0, y_count = 1, scale = 2, offset = 0\<rparr>" 0 0]
  by simp

text \<open>
  C1. The early-out tests are made on \<open>z\<close>, which is \<open>0 + 0i\<close> there, with the
  constants \<^verbatim>\<open>1/4\<close> and \<^verbatim>\<open>1/16\<close> that integer division makes 0. For every pixel both
  tests are false, the condition of line 101 is true, the kernel's result is the
  result of the iteration loop, and the branch that sets \<open>i\<close> to \<open>max_iterations\<close> without
  iterating is not taken.
\<close>

theorem early_out_never_taken:
  "c_div 1 4 = 0 \<and> c_div 1 16 = 0
   \<and> inside_cardioid (Complex 0 0) = False
   \<and> inside_period2_bulb (Complex 0 0) = False
   \<and> loop_branch (Complex 0 0) = True
   \<and> escape (pixel_c tw th job x y) =
       escape_loop (pixel_c tw th job x y) (Complex 0 0) 0"
  by (simp add: early_out_tests_false loop_branch_zero escape_is_loop c_div_def)

theorem early_out_never_taken_witness:
  "loop_branch (Complex 0 0) \<and>
   escape (pixel_c 256 256 \<lparr>y_start = 0, y_count = 128, scale = 2, offset = Complex 0 1\<rparr> 3 5) =
     escape_loop (pixel_c 256 256 \<lparr>y_start = 0, y_count = 128, scale = 2, offset = Complex 0 1\<rparr> 3 5)
       (Complex 0 0) 0"
  using early_out_never_taken
    [of 256 256 "\<lparr>y_start = 0, y_count = 128, scale = 2, offset = Complex 0 1\<rparr>" 3 5]
  by simp

section \<open>The jobs of the two workers\<close>

lemma published_rows:
  "y_start (fst (published_jobs height es)) = 0 \<and>
   y_count (fst (published_jobs height es)) = height div 2 \<and>
   y_start (snd (published_jobs height es)) = height div 2 \<and>
   y_count (snd (published_jobs height es)) = height - height div 2"
proof -
  have step: "\<And>e jobs. y_start (fst (next_jobs e jobs)) = y_start (fst jobs) \<and>
      y_count (fst (next_jobs e jobs)) = y_count (fst jobs) \<and>
      y_start (snd (next_jobs e jobs)) = y_start (snd jobs) \<and>
      y_count (snd (next_jobs e jobs)) = y_count (snd jobs)"
    by (simp add: next_jobs_def Let_def)
  have gen: "\<And>jobs. y_start (fst (fold next_jobs es jobs)) = y_start (fst jobs) \<and>
      y_count (fst (fold next_jobs es jobs)) = y_count (fst jobs) \<and>
      y_start (snd (fold next_jobs es jobs)) = y_start (snd jobs) \<and>
      y_count (snd (fold next_jobs es jobs)) = y_count (snd jobs)"
    by (induction es) (simp_all add: step)
  show ?thesis
    unfolding published_jobs_def
    by (simp add: gen first_jobs_def Let_def)
qed

text \<open>
  C5. For every height \<open>H\<close> of the raster and every frame, the first worker's job
  covers the rows \<open>[0, H div 2)\<close> and the second one's the rows \<open>[H div 2, H)\<close>, the
  remainder row of an odd height being in the second band. The two bands are disjoint
  and together they are the rows \<open>[0, H)\<close>, each once and in order: no row is given to
  both workers.
\<close>

theorem bands_partition_rows:
  "job_rows (fst (published_jobs height es)) = [0 ..< height div 2]
   \<and> job_rows (snd (published_jobs height es)) = [height div 2 ..< height]
   \<and> job_rows (fst (published_jobs height es)) @ job_rows (snd (published_jobs height es)) = [0 ..< height]
   \<and> set (job_rows (fst (published_jobs height es))) \<inter> set (job_rows (snd (published_jobs height es))) = {}
   \<and> set (job_rows (fst (published_jobs height es))) \<union> set (job_rows (snd (published_jobs height es))) = {0 ..< height}"
proof -
  have a: "job_rows (fst (published_jobs height es)) = [0 ..< height div 2]"
    by (simp add: job_rows_def published_rows)
  have b: "job_rows (snd (published_jobs height es)) = [height div 2 ..< height]"
    by (simp add: job_rows_def published_rows)
  have c: "[0 ..< height div 2] @ [height div 2 ..< height] = [0 ..< height]"
    using upt_add_eq_append [of 0 "height div 2" "height - height div 2"] by simp
  show ?thesis unfolding a b c by auto
qed

theorem bands_partition_rows_witness:
  "job_rows (fst (published_jobs 7 [1.5])) = [0, 1, 2]
   \<and> job_rows (snd (published_jobs 7 [1.5])) = [3, 4, 5, 6]"
  using bands_partition_rows [of 7 "[1.5]"] by (simp add: upt_rec)

section \<open>The colour ramp\<close>

lemma ramp_step_length: "length (ramp_step i ramp) = length ramp"
  by (simp add: ramp_step_def Let_def)

lemma fold_ramp_step_length: "length (fold ramp_step ks ramp) = length ramp"
  by (induction ks arbitrary: ramp) (simp_all add: ramp_step_length)

lemma ramp_prefix:
  "length ramp = max_colors * 2 \<Longrightarrow> n \<le> max_colors \<Longrightarrow> i < n \<Longrightarrow>
   fold ramp_step [0 ..< n] ramp ! i = ramp_color i \<and>
   fold ramp_step [0 ..< n] ramp ! (max_colors * 2 - 1 - i) = ramp_color i"
proof (induction n)
  case 0
  then show ?case by simp
next
  case (Suc n)
  let ?r = "fold ramp_step [0 ..< n] ramp"
  have len: "length ?r = max_colors * 2" using Suc.prems by (simp add: fold_ramp_step_length)
  have f: "fold ramp_step [0 ..< Suc n] ramp = ramp_step n ?r" by simp
  show ?case
  proof (cases "i = n")
    case True
    with len Suc.prems show ?thesis
      unfolding f by (simp add: ramp_step_def Let_def)
  next
    case False
    with Suc.prems have "i < n" by simp
    with Suc have ih: "?r ! i = ramp_color i \<and> ?r ! (max_colors * 2 - 1 - i) = ramp_color i"
      by simp
    from \<open>i < n\<close> Suc.prems have ne: "i \<noteq> n" "i \<noteq> max_colors * 2 - 1 - n"
      "max_colors * 2 - 1 - i \<noteq> n" "max_colors * 2 - 1 - i \<noteq> max_colors * 2 - 1 - n"
      by auto
    show ?thesis unfolding f using ih ne by (simp add: ramp_step_def Let_def)
  qed
qed

lemma build_ramp_low:
  "length ramp = max_colors * 2 \<Longrightarrow> i < max_colors \<Longrightarrow>
   build_ramp ramp ! i = ramp_color i \<and> build_ramp ramp ! (max_colors * 2 - 1 - i) = ramp_color i"
  unfolding build_ramp_def by (rule ramp_prefix) simp_all

lemma ramp_color_unit:
  "i < max_colors \<Longrightarrow>
   0 \<le> color_r (ramp_color i) \<and> color_r (ramp_color i) \<le> 1 \<and>
   0 \<le> color_g (ramp_color i) \<and> color_g (ramp_color i) \<le> 1 \<and>
   0 \<le> color_b (ramp_color i) \<and> color_b (ramp_color i) \<le> 1"
  by (simp add: ramp_color_def Let_def max_colors_def)

lemma build_ramp_length: "length (build_ramp ramp) = length ramp"
  by (simp add: build_ramp_def fold_ramp_step_length)

lemma build_ramp_high:
  assumes "length ramp = max_colors * 2" "max_colors \<le> k" "k < max_colors * 2"
  shows "build_ramp ramp ! k = ramp_color (max_colors * 2 - 1 - k)"
proof -
  have "max_colors * 2 - 1 - k < max_colors" using assms by simp
  from build_ramp_low [OF assms(1) this] assms show ?thesis by simp
qed

lemma build_ramp_unit:
  assumes "length ramp = max_colors * 2" "k < max_colors * 2"
  shows "0 \<le> color_r (build_ramp ramp ! k) \<and> color_r (build_ramp ramp ! k) \<le> 1 \<and>
         0 \<le> color_g (build_ramp ramp ! k) \<and> color_g (build_ramp ramp ! k) \<le> 1 \<and>
         0 \<le> color_b (build_ramp ramp ! k) \<and> color_b (build_ramp ramp ! k) \<le> 1"
proof (cases "k < max_colors")
  case True
  with build_ramp_low [OF assms(1) True] ramp_color_unit [OF True] show ?thesis by simp
next
  case False
  then have hi: "max_colors \<le> k" by simp
  have "max_colors * 2 - 1 - k < max_colors" using assms hi by simp
  from ramp_color_unit [OF this] build_ramp_high [OF assms(1) hi assms(2)]
  show ?thesis by simp
qed

text \<open>
  C7. From an array of 100 colours the palette loop makes a ramp of 100 entries in
  which, for every \<open>i\<close> below 50, entry \<open>i\<close> is
  \<open>(sqrt (sqrt (i/50)), i/50, ((50 - i)/50) \<sqdot> 0.5)\<close> and entry \<open>99 - i\<close> equals entry
  \<open>i\<close>; every channel of every entry is in \<open>[0, 1]\<close>.
\<close>

theorem palette_ramp:
  assumes "length ramp = 100"
  shows "length (build_ramp ramp) = 100
    \<and> (\<forall>i<50. build_ramp ramp ! i =
                  Color (sqrt (sqrt (real i / 50))) (real i / 50) ((real (50 - i) / 50) * 0.5)
              \<and> build_ramp ramp ! (99 - i) = build_ramp ramp ! i)
    \<and> (\<forall>k<100. 0 \<le> color_r (build_ramp ramp ! k) \<and> color_r (build_ramp ramp ! k) \<le> 1
              \<and> 0 \<le> color_g (build_ramp ramp ! k) \<and> color_g (build_ramp ramp ! k) \<le> 1
              \<and> 0 \<le> color_b (build_ramp ramp ! k) \<and> color_b (build_ramp ramp ! k) \<le> 1)"
proof -
  have len: "length ramp = max_colors * 2" using assms by (simp add: max_colors_def)
  have a: "length (build_ramp ramp) = 100" using assms by (simp add: build_ramp_length)
  have b: "build_ramp ramp ! i =
             Color (sqrt (sqrt (real i / 50))) (real i / 50) ((real (50 - i) / 50) * 0.5)
           \<and> build_ramp ramp ! (99 - i) = build_ramp ramp ! i" if "i < 50" for i
  proof -
    from that have "i < max_colors" by (simp add: max_colors_def)
    from build_ramp_low [OF len this] show ?thesis
      by (simp add: ramp_color_def Let_def max_colors_def)
  qed
  have c: "0 \<le> color_r (build_ramp ramp ! k) \<and> color_r (build_ramp ramp ! k) \<le> 1
         \<and> 0 \<le> color_g (build_ramp ramp ! k) \<and> color_g (build_ramp ramp ! k) \<le> 1
         \<and> 0 \<le> color_b (build_ramp ramp ! k) \<and> color_b (build_ramp ramp ! k) \<le> 1"
    if "k < 100" for k
    using build_ramp_unit [OF len, of k] that by (simp add: max_colors_def)
  from a b c show ?thesis by blast
qed

theorem palette_ramp_witness:
  "length (build_ramp (replicate 100 (Color 7 7 7))) = 100
   \<and> build_ramp (replicate 100 (Color 7 7 7)) ! 25 = Color (sqrt (sqrt (1 / 2))) (1 / 2) (1 / 4)
   \<and> build_ramp (replicate 100 (Color 7 7 7)) ! 74 = build_ramp (replicate 100 (Color 7 7 7)) ! 25
   \<and> color_r (build_ramp (replicate 100 (Color 7 7 7)) ! 99) \<le> 1"
proof -
  let ?R = "build_ramp (replicate 100 (Color 7 7 7))"
  have len: "length (replicate 100 (Color 7 7 7)) = 100" by simp
  note p = palette_ramp [OF len]
  have a: "length ?R = 100" using p by (rule conjunct1)
  have b: "?R ! 25 = Color (sqrt (sqrt (1 / 2))) (1 / 2) (1 / 4) \<and> ?R ! 74 = ?R ! 25"
    using p [THEN conjunct2, THEN conjunct1, rule_format, of 25] by simp
  have c: "color_r (?R ! 99) \<le> 1"
    using p [THEN conjunct2, THEN conjunct2, rule_format, of 99] by simp
  from a b c show ?thesis by simp
qed

text \<open>
  C8. In the ramp that the palette loop makes, entry 0 equals entry 99 and entry 49
  equals entry 50. The colour interpolated between entries 99 and \<open>100 mod 100\<close>, the
  pair that \<^verbatim>\<open>WritePixel\<close> reads across the wrap, is therefore the same for every
  interpolation factor, and so is the colour between entries 49 and 50: the ramp has
  no jump there.
\<close>

theorem palette_wrap_continuous:
  assumes "length ramp = 100"
  shows "build_ramp ramp ! 0 = build_ramp ramp ! 99
    \<and> build_ramp ramp ! 49 = build_ramp ramp ! 50
    \<and> pixel_color (build_ramp ramp) 99 100 factor = Inr (build_ramp ramp ! 99)
    \<and> pixel_color (build_ramp ramp) 49 50 factor = Inr (build_ramp ramp ! 49)"
proof -
  have len: "length ramp = max_colors * 2" using assms by (simp add: max_colors_def)
  have a: "build_ramp ramp ! 0 = build_ramp ramp ! 99"
    using build_ramp_low [OF len, of 0] by (simp add: max_colors_def)
  have b: "build_ramp ramp ! 49 = build_ramp ramp ! 50"
    using build_ramp_low [OF len, of 49] by (simp add: max_colors_def)
  have mix: "color_plus (color_times c factor) (color_times c (1 - factor)) = c" for c
    by (cases c) (simp add: color_plus_def color_times_def algebra_simps)
  have l: "length (build_ramp ramp) = 100" using assms by (simp add: build_ramp_length)
  have c: "pixel_color (build_ramp ramp) 99 100 factor = Inr (build_ramp ramp ! 99)"
    using a [symmetric] mix l
    by (simp add: pixel_color_def ramp_at_def c_mod_def c_div_def max_colors_def)
  have d: "pixel_color (build_ramp ramp) 49 50 factor = Inr (build_ramp ramp ! 49)"
    using b [symmetric] mix l
    by (simp add: pixel_color_def ramp_at_def c_mod_def c_div_def max_colors_def)
  from a b c d show ?thesis by simp
qed

theorem palette_wrap_continuous_witness:
  "build_ramp (replicate 100 (Color 7 7 7)) ! 0 = build_ramp (replicate 100 (Color 7 7 7)) ! 99
   \<and> pixel_color (build_ramp (replicate 100 (Color 7 7 7))) 99 100 (1 / 3) =
       Inr (build_ramp (replicate 100 (Color 7 7 7)) ! 99)"
proof -
  have len: "length (replicate 100 (Color 7 7 7)) = 100" by simp
  from palette_wrap_continuous [OF len, of "1 / 3"] show ?thesis by simp
qed

section \<open>Inside pixels\<close>

lemma escape_loop_small_z:
  assumes "escape_loop c z i = (z', i')" "i \<le> max_iterations"
    "Re z' * Re z' + Im z' * Im z' < 2 * 2"
  shows "i' = max_iterations"
  using assms
proof (induction c z i rule: escape_loop.induct)
  case (1 c z i)
  show ?case
  proof (cases "i < max_iterations \<and> Re z * Re z + Im z * Im z < 2 * 2")
    case True
    with "1.prems" have "escape_loop c (z * z + c) (i + 1) = (z', i')"
      by (simp add: escape_loop_step)
    with True "1.IH" "1.prems" show ?thesis by simp
  next
    case False
    with "1.prems" have "z' = z" "i' = i" by (simp_all add: escape_loop_stop)
    with False "1.prems" show ?thesis by auto
  qed
qed

lemma WritePixel_inside:
  "WritePixel W ramp td x y (- 1) 0 0 =
     (if (y * W + x) * 3 + 2 < length td
      then Inr (td[(y * W + x) * 3 + 0 := 0, (y * W + x) * 3 + 1 := 0, (y * W + x) * 3 + 2 := 0])
      else Inl Out_Of_Bounds)"
  by (simp add: WritePixel_def pixel_color_def to_uchar_def c_trunc_def store_def Let_def)

lemma escape_count_le: "escape c = (z, i) \<Longrightarrow> i \<le> max_iterations"
  using escape_loop_le [of 0 c "Complex 0 0"] by (simp add: escape_is_loop)

lemma escape_one_step:
  assumes "4 \<le> Re c * Re c + Im c * Im c"
  shows "escape c = (c, 1)"
proof -
  have z: "Complex 0 0 * Complex 0 0 + c = c" by (simp add: complex_eq_iff)
  have "escape_loop c (Complex 0 0) 0 = escape_loop c c 1"
    using escape_loop_step [of 0 "Complex 0 0" c] by (simp add: max_iterations_def z)
  also have "\<dots> = (c, 1)" using assms by (simp add: escape_loop_stop)
  finally show ?thesis by (simp add: escape_is_loop)
qed

lemma pixel_c_corner:
  "pixel_c 1 1 \<lparr>y_start = 0, y_count = 1, scale = 1, offset = Complex (a + 1) 1\<rparr> 0 0 = Complex a 0"
  by (simp add: pixel_c_def Let_def complex_eq_iff)

lemma escape_zero_fixed:
  assumes "n \<le> 1000"
  shows "escape_loop (Complex 0 0) (Complex 0 0) n = (Complex 0 0, 1000)"
  using assms
proof (induction "1000 - n" arbitrary: n)
  case 0
  then have "n = 1000" by simp
  then show ?case by (simp add: escape_loop_stop max_iterations_def)
next
  case (Suc k)
  then have n: "n < 1000" by simp
  have nx: "Complex 0 0 * Complex 0 0 + Complex 0 0 = Complex 0 0"
    by (simp add: complex_eq_iff)
  have "escape_loop (Complex 0 0) (Complex 0 0) n =
        escape_loop (Complex 0 0) (Complex 0 0 * Complex 0 0 + Complex 0 0) (n + 1)"
    using n by (intro escape_loop_step) (simp_all add: max_iterations_def)
  also have "\<dots> = (Complex 0 0, 1000)"
    unfolding nx using Suc.hyps(1) [of "Suc n"] Suc.hyps(2) n by simp
  finally show ?case .
qed

text \<open>The real orbit of 0 under \<open>x \<mapsto> x\<^sup>2 + c\<close>, for a real \<open>c\<close> from 1/4 on.\<close>

lemma orbit_continuous:
  "continuous_on UNIV (\<lambda>c::real. ((\<lambda>x. x * x + c) ^^ n) 0)"
  by (induction n) (auto intro!: continuous_intros)

lemma orbit_quarter: "0 \<le> ((\<lambda>x::real. x * x + 1 / 4) ^^ n) 0 \<and> ((\<lambda>x::real. x * x + 1 / 4) ^^ n) 0 \<le> 1 / 2"
proof (induction n)
  case 0
  show ?case by simp
next
  case (Suc n)
  let ?x = "((\<lambda>x::real. x * x + 1 / 4) ^^ n) 0"
  from Suc have "?x * ?x \<le> (1 / 2) * (1 / 2)" by (intro mult_mono) simp_all
  with Suc show ?case by simp
qed

lemma orbit_two: "2 \<le> ((\<lambda>x::real. x * x + 2) ^^ Suc n) 0"
proof (induction n)
  case 0
  show ?case by simp
next
  case (Suc n)
  let ?x = "((\<lambda>x::real. x * x + 2) ^^ Suc n) 0"
  have "0 \<le> ?x * ?x" by simp
  then show ?case by (simp del: funpow.simps add: funpow.simps(2) [of "Suc n"])
qed

lemma orbit_mono:
  fixes c :: real
  assumes "1 / 4 \<le> c"
  shows "((\<lambda>x. x * x + c) ^^ n) 0 \<le> ((\<lambda>x. x * x + c) ^^ Suc n) 0"
proof -
  let ?x = "((\<lambda>x. x * x + c) ^^ n) 0"
  have "0 \<le> (?x - 1 / 2) * (?x - 1 / 2)" by simp
  then have "?x \<le> ?x * ?x + 1 / 4" by (simp add: algebra_simps)
  with assms show ?thesis by simp
qed

lemma orbit_mono_le:
  fixes c :: real
  assumes "1 / 4 \<le> c" "m \<le> n"
  shows "((\<lambda>x. x * x + c) ^^ m) 0 \<le> ((\<lambda>x. x * x + c) ^^ n) 0"
  using assms(2)
proof (induction n)
  case 0
  then show ?case by simp
next
  case (Suc n)
  show ?case
  proof (cases "m = Suc n")
    case True then show ?thesis by simp
  next
    case False
    with Suc have "((\<lambda>x. x * x + c) ^^ m) 0 \<le> ((\<lambda>x. x * x + c) ^^ n) 0" by simp
    also have "\<dots> \<le> ((\<lambda>x. x * x + c) ^^ Suc n) 0" by (rule orbit_mono [OF assms(1)])
    finally show ?thesis .
  qed
qed

lemma orbit_nonneg:
  fixes c :: real
  assumes "1 / 4 \<le> c"
  shows "0 \<le> ((\<lambda>x. x * x + c) ^^ n) 0"
  using orbit_mono_le [OF assms, of 0 n] by simp

lemma orbit_hits_two:
  "\<exists>c::real. 1 / 4 \<le> c \<and> c \<le> 2 \<and> ((\<lambda>x. x * x + c) ^^ 1000) 0 = 2"
proof -
  let ?h = "\<lambda>c::real. ((\<lambda>x. x * x + c) ^^ 1000) 0"
  have lo: "?h (1 / 4) \<le> 2" using orbit_quarter [of 1000] by simp
  have hi: "2 \<le> ?h 2" using orbit_two [of 999] by simp
  have cont: "continuous_on {1 / 4 .. 2} ?h"
    by (rule continuous_on_subset [OF orbit_continuous]) simp
  from IVT' [of ?h "1 / 4" 2 2, OF lo hi _ cont] show ?thesis by auto
qed

lemma orbit_below_two:
  fixes c :: real
  assumes c: "1 / 4 \<le> c" and h: "((\<lambda>x. x * x + c) ^^ 1000) 0 = 2" and n: "n < 1000"
  shows "((\<lambda>x. x * x + c) ^^ n) 0 * ((\<lambda>x. x * x + c) ^^ n) 0 < 2 * 2"
proof -
  let ?x = "((\<lambda>x. x * x + c) ^^ n) 0"
  have x0: "0 \<le> ?x" by (rule orbit_nonneg [OF c])
  have "?x < 2"
  proof (rule ccontr)
    assume "\<not> ?x < 2"
    then have x2: "2 \<le> ?x" by simp
    then have "2 * 2 \<le> ?x * ?x" by (intro mult_mono) simp_all
    with c have "2 < ?x * ?x + c" by simp
    then have "2 < ((\<lambda>x. x * x + c) ^^ Suc n) 0" by simp
    also have "\<dots> \<le> ((\<lambda>x. x * x + c) ^^ 1000) 0"
      using n by (intro orbit_mono_le [OF c]) simp
    finally show False using h by simp
  qed
  with x0 show ?thesis by (intro mult_strict_mono) simp_all
qed

lemma escape_loop_real_orbit:
  fixes c :: real
  assumes c: "1 / 4 \<le> c" and h: "((\<lambda>x. x * x + c) ^^ 1000) 0 = 2" and n: "n \<le> 1000"
  shows "escape_loop (Complex c 0) (Complex (((\<lambda>x. x * x + c) ^^ n) 0) 0) n = (Complex 2 0, 1000)"
  using n
proof (induction "1000 - n" arbitrary: n)
  case 0
  then have "n = 1000" by simp
  then show ?case using h by (simp add: escape_loop_stop max_iterations_def)
next
  case (Suc k)
  let ?x = "((\<lambda>x. x * x + c) ^^ n) 0"
  from Suc have n: "n < 1000" by simp
  have lt: "Re (Complex ?x 0) * Re (Complex ?x 0) + Im (Complex ?x 0) * Im (Complex ?x 0) < 2 * 2"
    using orbit_below_two [OF c h n] by simp
  have nx: "Complex ?x 0 * Complex ?x 0 + Complex c 0 = Complex (((\<lambda>x. x * x + c) ^^ Suc n) 0) 0"
    by (simp add: complex_eq_iff)
  have "escape_loop (Complex c 0) (Complex ?x 0) n =
        escape_loop (Complex c 0) (Complex ?x 0 * Complex ?x 0 + Complex c 0) (n + 1)"
    using n by (intro escape_loop_step lt) (simp add: max_iterations_def)
  also have "\<dots> = (Complex 2 0, 1000)"
    unfolding nx using Suc.hyps(1) [of "Suc n"] Suc.hyps(2) n by simp
  finally show ?case .
qed

text \<open>
  C2, as the code has it. The test of line 114 sends a pixel to the black branch
  exactly when the loop ended with \<open>i = max_iterations\<close>; this is the case whenever
  \<open>|z|\<^sup>2 < 4\<close> at the end of the loop. Every pixel so classified gets the arguments
  \<open>(-1, 0, 0.0)\<close>, the colour \<open>(0, 0, 0)\<close>, and the three bytes 0 at its place in the
  raster.
\<close>

theorem inside_iff_max_iterations:
  assumes "escape (pixel_c (texture_width w) (texture_height w) (current_job w) x y) = (z, i)"
    and "texture_width w \<noteq> 0" and "texture_height w \<noteq> 0"
    and "(y * to_size_t (texture_width w) + x) * 3 + 2 < length td"
  shows "(inside z i \<longleftrightarrow> i = max_iterations)
    \<and> (Re z * Re z + Im z * Im z < 2 * 2 \<longrightarrow> i = max_iterations)
    \<and> (inside z i \<longrightarrow>
         pixel_args z i = Inr (- 1, 0, 0) \<and>
         pixel_color (color_ramp w) (- 1) 0 0 = Inr (Color 0 0 0) \<and>
         render_pixel w td x y =
           Inr (td[(y * to_size_t (texture_width w) + x) * 3 + 0 := 0,
                   (y * to_size_t (texture_width w) + x) * 3 + 1 := 0,
                   (y * to_size_t (texture_width w) + x) * 3 + 2 := 0]))"
proof -
  have e: "escape_loop (pixel_c (texture_width w) (texture_height w) (current_job w) x y)
             (Complex 0 0) 0 = (z, i)"
    using assms(1) by (simp add: escape_is_loop)
  have small: "i = max_iterations" if "Re z * Re z + Im z * Im z < 2 * 2"
    using escape_loop_small_z [OF e _ that] by simp
  then have a: "inside z i \<longleftrightarrow> i = max_iterations" by (auto simp: inside_def)
  have c: "pixel_args z i = Inr (- 1, 0, 0) \<and>
         pixel_color (color_ramp w) (- 1) 0 0 = Inr (Color 0 0 0) \<and>
         render_pixel w td x y =
           Inr (td[(y * to_size_t (texture_width w) + x) * 3 + 0 := 0,
                   (y * to_size_t (texture_width w) + x) * 3 + 1 := 0,
                   (y * to_size_t (texture_width w) + x) * 3 + 2 := 0])" if "inside z i"
    using that assms
    by (simp add: pixel_args_def pixel_color_def render_pixel_def Let_def WritePixel_inside)
  from a small c show ?thesis by blast
qed

theorem inside_iff_max_iterations_witness:
  "inside (Complex 0 0) 1000
   \<and> render_pixel
       (new_renderer (replicate 100 (Color 1 1 1)) 1 1
          \<lparr>y_start = 0, y_count = 1, scale = 1, offset = Complex (0 + 1) 1\<rparr>)
       [7, 7, 7] 0 0 = Inr [0, 0, 0]"
proof -
  let ?job = "\<lparr>y_start = 0, y_count = 1, scale = 1, offset = Complex (0 + 1) 1\<rparr>"
  let ?w = "new_renderer (replicate 100 (Color 1 1 1)) 1 1 ?job"
  have e: "escape (pixel_c (texture_width ?w) (texture_height ?w) (current_job ?w) 0 0)
             = (Complex 0 0, 1000)"
    unfolding new_renderer_def FractalRenderer.simps pixel_c_corner
    using escape_zero_fixed [of 0] by (simp add: escape_is_loop)
  have w: "texture_width ?w \<noteq> 0" "texture_height ?w \<noteq> 0"
    by (simp_all add: new_renderer_def)
  have bound: "(0 * to_size_t (texture_width ?w) + 0) * 3 + 2 < length [7::8 word, 7, 7]"
    by simp
  have i: "inside (Complex 0 0) 1000" by (simp add: inside_def max_iterations_def)
  from inside_iff_max_iterations [OF e w bound] i show ?thesis by simp
qed

text \<open>
  The converse fails: there is a pixel whose orbit leaves the disc in the very
  iteration that brings \<open>i\<close> to \<open>max_iterations\<close>. It is classified inside although
  \<open>|z|\<^sup>2 < 4\<close> is false at the end of the loop.
\<close>

theorem inside_with_escaped_z:
  "\<exists>job z i. escape (pixel_c 1 1 job 0 0) = (z, i) \<and> inside z i
     \<and> \<not> Re z * Re z + Im z * Im z < 2 * 2"
proof -
  from orbit_hits_two obtain c :: real
    where c: "1 / 4 \<le> c" and h: "((\<lambda>x. x * x + c) ^^ 1000) 0 = 2" by blast
  let ?job = "\<lparr>y_start = 0, y_count = 1, scale = 1, offset = Complex (c + 1) 1\<rparr>"
  have "escape (Complex c 0) = (Complex 2 0, 1000)"
    using escape_loop_real_orbit [OF c h, of 0] by (simp add: escape_is_loop)
  then have e: "escape (pixel_c 1 1 ?job 0 0) = (Complex 2 0, 1000)"
    unfolding pixel_c_corner .
  have "inside (Complex 2 0) 1000" by (simp add: inside_def max_iterations_def)
  moreover have "\<not> Re (Complex 2 0) * Re (Complex 2 0) + Im (Complex 2 0) * Im (Complex 2 0) < 2 * 2"
    by simp
  ultimately show ?thesis using e by blast
qed

section \<open>Outside pixels\<close>

lemma outside_cmod: "\<not> inside z i \<Longrightarrow> 2 \<le> cmod z"
proof -
  assume "\<not> inside z i"
  then have "4 \<le> Re z * Re z + Im z * Im z" by (simp add: inside_def)
  then have "2\<^sup>2 \<le> (Re z)\<^sup>2 + (Im z)\<^sup>2"
    by (simp add: power2_eq_square)
  then have "2 \<le> sqrt ((Re z)\<^sup>2 + (Im z)\<^sup>2)"
    by (rule real_le_rsqrt)
  then show ?thesis by (simp add: cmod_def)
qed

lemma log2_1000: "log 2 1000 < 10"
proof -
  have "(1000::real) < 2 powr 10" by simp
  then show ?thesis by (simp add: log_less_iff)
qed

lemma log2_10: "log 2 10 < (4::real)"
proof -
  have "(10::real) < 2 powr 4" by simp
  then show ?thesis by (simp add: log_less_iff)
qed

lemma smoothed_upper:
  assumes "2 \<le> cmod z"
  shows "smoothed z i < real i + 4"
proof -
  have l2: "0 < ln (2::real)" by simp
  have lz: "ln 2 \<le> ln (cmod z)"
    by (subst ln_le_cancel_iff) (use assms in auto)
  have lpos: "0 < ln (cmod z)" using lz l2 by linarith
  have "ln (ln 2) \<le> ln (ln (cmod z))"
    by (subst ln_le_cancel_iff) (use lz lpos in auto)
  then have "(ln (ln (real max_iterations)) - ln (ln (cmod z))) / ln 2
      \<le> (ln (ln 1000) - ln (ln 2)) / ln 2"
    using l2 by (simp add: max_iterations_def divide_right_mono)
  also have "(ln (ln 1000) - ln (ln 2)) / ln (2::real) = log 2 (log 2 1000)"
    by (simp add: log_def ln_div)
  also have "\<dots> < log 2 10"
  proof -
    have pos: "0 < log 2 (1000::real)" by (subst zero_less_log_cancel_iff) simp_all
    show ?thesis by (subst log_less_cancel_iff) (use pos log2_1000 in simp_all)
  qed
  also have "\<dots> < 4" by (rule log2_10)
  finally show ?thesis by (simp add: smoothed_def)
qed

lemma c_mod_nonneg: "0 \<le> a \<Longrightarrow> 0 < b \<Longrightarrow> c_mod a b = a mod b"
proof -
  assume a: "0 \<le> a" and b: "0 < b"
  have "c_div a b = a div b"
  proof (cases "a = 0")
    case True then show ?thesis by (simp add: c_div_def)
  next
    case False
    with a b show ?thesis by (simp add: c_div_def sgn_if)
  qed
  then show ?thesis by (simp add: c_mod_def minus_div_mult_eq_mod)
qed

lemma pixel_args_outside:
  assumes out: "\<not> inside z i" and i: "i \<le> max_iterations" and s: "0 \<le> smoothed z i"
  shows "pixel_args z i =
           Inr (\<lfloor>smoothed z i\<rfloor>, \<lfloor>smoothed z i\<rfloor> + 1, smoothed z i - of_int \<lfloor>smoothed z i\<rfloor>)"
    and "0 \<le> \<lfloor>smoothed z i\<rfloor>" and "\<lfloor>smoothed z i\<rfloor> < 1004"
proof -
  have up: "smoothed z i < real i + 4" using out by (intro smoothed_upper outside_cmod)
  with i have "smoothed z i < 1004" by (simp add: max_iterations_def)
  then show hi: "\<lfloor>smoothed z i\<rfloor> < 1004" by (simp add: floor_less_iff)
  show lo: "0 \<le> \<lfloor>smoothed z i\<rfloor>" using s by simp
  have t: "c_trunc (smoothed z i) = \<lfloor>smoothed z i\<rfloor>" using s by (simp add: c_trunc_def)
  show "pixel_args z i =
           Inr (\<lfloor>smoothed z i\<rfloor>, \<lfloor>smoothed z i\<rfloor> + 1, smoothed z i - of_int \<lfloor>smoothed z i\<rfloor>)"
    using out lo hi by (simp add: pixel_args_def Let_def to_int_def int_add_def t)
qed

lemma pixel_args_trunc:
  assumes "\<not> inside z i" and "c_trunc (smoothed z i) = t"
    and "- (2 ^ 31) \<le> t" and "t + 1 < 2 ^ 31"
  shows "pixel_args z i = Inr (t, t + 1, smoothed z i - of_int t)"
  using assms by (simp add: pixel_args_def Let_def to_int_def int_add_def)

text \<open>The pixel with \<open>c = 10\<close>: one iteration, \<open>s = 1 + log\<^sub>2 3\<close>, ramp entries 2 and 3.\<close>

lemma smoothed_10: "smoothed (Complex 10 0) 1 = 1 + log 2 3"
proof -
  have c: "cmod (Complex 10 0) = 10" by (simp add: cmod_def)
  have a: "ln (1000::real) = 3 * ln 10"
    using ln_realpow [of "10::real" 3] by simp
  have p: "0 < ln (10::real)" by simp
  have "ln (3 * ln (10::real)) - ln (ln 10) = ln ((3 * ln 10) / ln 10)"
    using p by (subst ln_div) simp_all
  also have "(3 * ln (10::real)) / ln 10 = 3" using p by simp
  finally have d: "ln (3 * ln (10::real)) - ln (ln 10) = ln 3" .
  show ?thesis
    unfolding smoothed_def c max_iterations_def
    by (simp only: of_nat_numeral a d log_def of_nat_1)
qed

lemma log2_3_bounds: "31 / 20 < log 2 (3::real)" "log 2 (3::real) < 8 / 5"
proof -
  have p: "(2 powr (31 / 20)) ^ 20 = (2::real) ^ 31"
  proof -
    have "(2 powr (31 / 20)) ^ 20 = (2 powr (31 / 20)) powr (20::real)"
      by (subst powr_numeral) simp_all
    also have "\<dots> = 2 powr (31::real)" by (simp add: powr_powr)
    also have "\<dots> = (2::real) ^ 31" by (subst powr_numeral) simp_all
    finally show ?thesis .
  qed
  have "(2 powr (31 / 20)) ^ 20 < (3::real) ^ 20" unfolding p by simp
  then have "2 powr (31 / 20) < (3::real)" by (rule power_less_imp_less_base) simp
  moreover have "31 / 20 < log 2 (3::real) \<longleftrightarrow> 2 powr (31 / 20) < (3::real)"
    by (rule less_log_iff) simp_all
  ultimately show "31 / 20 < log 2 (3::real)" by blast
  have q: "(2 powr (8 / 5)) ^ 5 = (2::real) ^ 8"
  proof -
    have "(2 powr (8 / 5)) ^ 5 = (2 powr (8 / 5)) powr (5::real)"
      by (subst powr_numeral) simp_all
    also have "\<dots> = 2 powr (8::real)" by (simp add: powr_powr)
    also have "\<dots> = (2::real) ^ 8" by (subst powr_numeral) simp_all
    finally show ?thesis .
  qed
  have "(3::real) ^ 5 < (2 powr (8 / 5)) ^ 5" unfolding q by simp
  then have "(3::real) < 2 powr (8 / 5)" by (rule power_less_imp_less_base) simp
  moreover have "log 2 (3::real) < 8 / 5 \<longleftrightarrow> (3::real) < 2 powr (8 / 5)"
    by (rule log_less_iff) simp_all
  ultimately show "log 2 (3::real) < 8 / 5" by blast
qed

text \<open>
  C10. For every pixel that is classified outside and whose smoothed count \<open>s\<close> is
  not negative, the arguments of \<^verbatim>\<open>WritePixel\<close> are \<open>first = (int)s\<close> and
  \<open>second = first + 1\<close>, both remainders modulo \<open>max_colors*2\<close> are in \<open>[0, 100)\<close>,
  and both reads of a ramp of 100 entries are within the array.
\<close>

theorem ramp_reads_in_bounds:
  assumes "escape (pixel_c tw th job x y) = (z, i)"
    and "\<not> inside z i"
    and "0 \<le> smoothed z i"
    and "pixel_args z i = Inr (first, second, factor)"
    and "length ramp = 100"
  shows "first = c_trunc (smoothed z i) \<and> second = first + 1
    \<and> 0 \<le> c_mod first (int max_colors * 2) \<and> c_mod first (int max_colors * 2) < 100
    \<and> 0 \<le> c_mod second (int max_colors * 2) \<and> c_mod second (int max_colors * 2) < 100
    \<and> ramp_at ramp (c_mod first (int max_colors * 2)) =
        Inr (ramp ! nat (c_mod first (int max_colors * 2)))
    \<and> ramp_at ramp (c_mod second (int max_colors * 2)) =
        Inr (ramp ! nat (c_mod second (int max_colors * 2)))"
proof -
  have i: "i \<le> max_iterations" using assms(1) by (rule escape_count_le)
  note pa = pixel_args_outside [OF assms(2) i assms(3)]
  from pa(1) assms(4) have f: "first = \<lfloor>smoothed z i\<rfloor>" and g: "second = first + 1" by simp_all
  from f pa(2) have f0: "0 \<le> first" by simp
  with g have s0: "0 \<le> second" by simp
  have t: "c_trunc (smoothed z i) = \<lfloor>smoothed z i\<rfloor>" using assms(3) by (simp add: c_trunc_def)
  have m1: "c_mod first (int max_colors * 2) = first mod 100"
    using f0 by (simp add: c_mod_nonneg max_colors_def)
  have m2: "c_mod second (int max_colors * 2) = second mod 100"
    using s0 by (simp add: c_mod_nonneg max_colors_def)
  show ?thesis
    unfolding m1 m2 using f g t assms(5) by (simp add: ramp_at_def)
qed

theorem ramp_reads_in_bounds_witness:
  "pixel_args (Complex 10 0) 1 = Inr (2, 3, log 2 3 - 1)
   \<and> 0 \<le> c_mod 2 (int max_colors * 2)
   \<and> c_mod 3 (int max_colors * 2) < 100
   \<and> ramp_at (replicate 100 (Color 0 0 0)) (c_mod 3 (int max_colors * 2)) =
       Inr (replicate 100 (Color 0 0 0) ! nat (c_mod 3 (int max_colors * 2)))"
proof -
  let ?job = "\<lparr>y_start = 0, y_count = 1, scale = 1, offset = Complex (10 + 1) 1\<rparr>"
  let ?s = "smoothed (Complex 10 0) 1"
  note lb = log2_3_bounds
  have e: "escape (pixel_c 1 1 ?job 0 0) = (Complex 10 0, 1)"
    unfolding pixel_c_corner by (rule escape_one_step) simp
  have out: "\<not> inside (Complex 10 0) 1" by (simp add: inside_def max_iterations_def)
  have s: "0 \<le> ?s" unfolding smoothed_10 using lb by linarith
  have fl: "\<lfloor>?s\<rfloor> = 2" unfolding smoothed_10 using lb by linarith
  have i: "(1::nat) \<le> max_iterations" by (simp add: max_iterations_def)
  have tr: "c_trunc ?s = 2" using s fl by (simp add: c_trunc_def)
  have f: "?s - of_int 2 = log 2 3 - 1" unfolding smoothed_10 by simp
  have "pixel_args (Complex 10 0) 1 = Inr (2, 2 + 1, ?s - of_int 2)"
    by (rule pixel_args_trunc [OF out tr]) simp_all
  then have pa: "pixel_args (Complex 10 0) 1 = Inr (2, 3, log 2 3 - 1)"
    unfolding f by simp
  have len: "length (replicate 100 (Color 0 0 0)) = 100" by simp
  from ramp_reads_in_bounds [OF e out s pa len] pa show ?thesis by simp
qed

lemma to_uchar_unit:
  assumes "0 \<le> a" "a \<le> 1"
  shows "to_uchar (a * 255) = Inr (word_of_int \<lfloor>a * 255\<rfloor>)"
proof -
  have n: "0 \<le> a * 255" using assms by simp
  have "a * 255 \<le> 255" using assms by simp
  then have "\<lfloor>a * 255\<rfloor> \<le> 255" by (simp add: floor_le_iff)
  moreover have "0 \<le> \<lfloor>a * 255\<rfloor>" using n by simp
  ultimately show ?thesis using n by (simp add: to_uchar_def c_trunc_def)
qed

lemma mix_unit:
  fixes a b f :: real
  assumes "0 \<le> a" "a \<le> 1" "0 \<le> b" "b \<le> 1" "0 \<le> f" "f \<le> 1"
  shows "0 \<le> a * f + b * (1 - f)" "a * f + b * (1 - f) \<le> 1"
proof -
  have "0 \<le> a * f" "0 \<le> b * (1 - f)" using assms by simp_all
  then show "0 \<le> a * f + b * (1 - f)" by simp
  have "a * f \<le> 1 * f" using assms by (intro mult_right_mono) simp_all
  moreover have "b * (1 - f) \<le> 1 * (1 - f)" using assms by (intro mult_right_mono) simp_all
  ultimately show "a * f + b * (1 - f) \<le> 1" by simp
qed

lemma WritePixel_stores:
  assumes c: "pixel_color ramp first second factor = Inr col"
    and r: "0 \<le> color_r col" "color_r col \<le> 1"
    and g: "0 \<le> color_g col" "color_g col \<le> 1"
    and b: "0 \<le> color_b col" "color_b col \<le> 1"
    and bound: "(y * W + x) * 3 + 2 < length td"
  shows "WritePixel W ramp td x y first second factor =
           Inr (td[(y * W + x) * 3 + 0 := word_of_int \<lfloor>color_r col * 255\<rfloor>,
                   (y * W + x) * 3 + 1 := word_of_int \<lfloor>color_g col * 255\<rfloor>,
                   (y * W + x) * 3 + 2 := word_of_int \<lfloor>color_b col * 255\<rfloor>])"
  using bound
  by (simp add: WritePixel_def Let_def c to_uchar_unit [OF r] to_uchar_unit [OF g]
      to_uchar_unit [OF b] store_def)

lemma pixel_color_ramp:
  assumes "0 \<le> first" "length ramp = 100"
  shows "pixel_color ramp first (first + 1) factor =
           Inr (color_plus (color_times (ramp ! nat ((first + 1) mod 100)) factor)
                           (color_times (ramp ! nat (first mod 100)) (1 - factor)))"
proof -
  have m1: "c_mod first (int max_colors * 2) = first mod 100"
    using assms by (simp add: c_mod_nonneg max_colors_def)
  have m2: "c_mod (first + 1) (int max_colors * 2) = (first + 1) mod 100"
    using assms by (simp add: c_mod_nonneg max_colors_def)
  show ?thesis
    unfolding pixel_color_def m1 m2 using assms by (simp add: ramp_at_def)
qed

lemma render_outside_pixel:
  assumes w: "texture_width w \<noteq> 0" "texture_height w \<noteq> 0"
    and ramp: "color_ramp w = build_ramp ramp0" "length ramp0 = 100"
    and esc: "escape (pixel_c (texture_width w) (texture_height w) (current_job w) x y) = (z, i)"
    and out: "\<not> inside z i"
    and s: "0 \<le> smoothed z i"
    and first: "first = \<lfloor>smoothed z i\<rfloor>"
    and second: "second = first + 1"
    and factor: "factor = smoothed z i - of_int first"
    and col: "col = color_plus (color_times (color_ramp w ! nat (second mod 100)) factor)
                               (color_times (color_ramp w ! nat (first mod 100)) (1 - factor))"
    and bound: "(y * to_size_t (texture_width w) + x) * 3 + 2 < length td"
  shows "smoothed z i = real i + (ln (ln 1000) - ln (ln (cmod z))) / ln 2
    \<and> pixel_args z i = Inr (first, second, factor)
    \<and> pixel_color (color_ramp w) first second factor = Inr col
    \<and> render_pixel w td x y =
        Inr (td[(y * to_size_t (texture_width w) + x) * 3 + 0 := word_of_int \<lfloor>color_r col * 255\<rfloor>,
                (y * to_size_t (texture_width w) + x) * 3 + 1 := word_of_int \<lfloor>color_g col * 255\<rfloor>,
                (y * to_size_t (texture_width w) + x) * 3 + 2 := word_of_int \<lfloor>color_b col * 255\<rfloor>])"
proof -
  have i: "i \<le> max_iterations" using esc by (rule escape_count_le)
  note pa = pixel_args_outside [OF out i s]
  have a: "smoothed z i = real i + (ln (ln 1000) - ln (ln (cmod z))) / ln 2"
    by (simp add: smoothed_def max_iterations_def)
  have b: "pixel_args z i = Inr (first, second, factor)"
    using pa(1) first second factor by simp
  have f0: "0 \<le> first" using pa(2) first by simp
  have len: "length (color_ramp w) = 100" using ramp by (simp add: build_ramp_length)
  have c: "pixel_color (color_ramp w) first second factor = Inr col"
    unfolding second col using pixel_color_ramp [OF f0 len] by simp
  have fl: "0 \<le> factor" "factor \<le> 1"
    unfolding factor first by linarith+
  have len0: "length ramp0 = max_colors * 2" using ramp(2) by (simp add: max_colors_def)
  have k1: "nat (first mod 100) < max_colors * 2" by (simp add: max_colors_def nat_less_iff)
  have k2: "nat (second mod 100) < max_colors * 2" by (simp add: max_colors_def nat_less_iff)
  note u1 = build_ramp_unit [OF len0 k1] and u2 = build_ramp_unit [OF len0 k2]
  have r: "0 \<le> color_r col" "color_r col \<le> 1"
    unfolding col ramp(1) using mix_unit [OF _ _ _ _ fl] u1 u2
    by (simp_all add: color_plus_def color_times_def)
  have g: "0 \<le> color_g col" "color_g col \<le> 1"
    unfolding col ramp(1) using mix_unit [OF _ _ _ _ fl] u1 u2
    by (simp_all add: color_plus_def color_times_def)
  have bl: "0 \<le> color_b col" "color_b col \<le> 1"
    unfolding col ramp(1) using mix_unit [OF _ _ _ _ fl] u1 u2
    by (simp_all add: color_plus_def color_times_def)
  have d: "render_pixel w td x y =
        Inr (td[(y * to_size_t (texture_width w) + x) * 3 + 0 := word_of_int \<lfloor>color_r col * 255\<rfloor>,
                (y * to_size_t (texture_width w) + x) * 3 + 1 := word_of_int \<lfloor>color_g col * 255\<rfloor>,
                (y * to_size_t (texture_width w) + x) * 3 + 2 := word_of_int \<lfloor>color_b col * 255\<rfloor>])"
    using w by (simp add: render_pixel_def Let_def esc b WritePixel_stores [OF c r g bl bound])
  from a b c d show ?thesis by blast
qed

text \<open>
  C3, for the pixels whose smoothed count is not negative. For every pixel that is
  classified outside with \<open>0 \<le> s\<close>, where
  \<open>s = i + (log (log max_iterations) - log (log |z|)) / log 2\<close>, the kernel passes
  \<open>first = floor s\<close>, \<open>second = first + 1\<close> and \<open>factor = s - first\<close>; the colour is
  \<open>ramp[second mod 100] \<sqdot> factor + ramp[first mod 100] \<sqdot> (1 - factor)\<close>, channel by
  channel; and the three bytes stored at the pixel's place are the channels times 255,
  fraction dropped.
\<close>

theorem outside_pixel_written:
  assumes w: "texture_width w \<noteq> 0" "texture_height w \<noteq> 0"
    and ramp: "color_ramp w = build_ramp ramp0" "length ramp0 = 100"
    and esc: "escape (pixel_c (texture_width w) (texture_height w) (current_job w) x y) = (z, i)"
    and out: "\<not> inside z i"
    and s: "0 \<le> smoothed z i"
    and first: "first = \<lfloor>smoothed z i\<rfloor>"
    and second: "second = first + 1"
    and factor: "factor = smoothed z i - of_int first"
    and col: "col = color_plus (color_times (color_ramp w ! nat (second mod 100)) factor)
                               (color_times (color_ramp w ! nat (first mod 100)) (1 - factor))"
    and bound: "(y * to_size_t (texture_width w) + x) * 3 + 2 < length td"
  shows "smoothed z i = real i + (ln (ln 1000) - ln (ln (cmod z))) / ln 2
    \<and> pixel_args z i = Inr (first, second, factor)
    \<and> pixel_color (color_ramp w) first second factor = Inr col
    \<and> render_pixel w td x y =
        Inr (td[(y * to_size_t (texture_width w) + x) * 3 + 0 := word_of_int \<lfloor>color_r col * 255\<rfloor>,
                (y * to_size_t (texture_width w) + x) * 3 + 1 := word_of_int \<lfloor>color_g col * 255\<rfloor>,
                (y * to_size_t (texture_width w) + x) * 3 + 2 := word_of_int \<lfloor>color_b col * 255\<rfloor>])"
  using assms by (rule render_outside_pixel)

theorem outside_pixel_written_witness:
  "render_pixel
     (new_renderer (build_ramp (replicate 100 (Color 0 0 0))) 1 1
        \<lparr>y_start = 0, y_count = 1, scale = 1, offset = Complex (10 + 1) 1\<rparr>)
     [0, 0, 0] 0 0 =
   Inr [word_of_int
          \<lfloor>(sqrt (sqrt (3 / 50)) * (log 2 3 - 1) + sqrt (sqrt (2 / 50)) * (2 - log 2 3)) * 255\<rfloor>,
        13, 120]"
proof -
  let ?job = "\<lparr>y_start = 0, y_count = 1, scale = 1, offset = Complex (10 + 1) 1\<rparr>"
  let ?ramp = "build_ramp (replicate 100 (Color 0 0 0))"
  let ?w = "new_renderer ?ramp 1 1 ?job"
  let ?s = "smoothed (Complex 10 0) 1"
  let ?f = "log 2 3 - 1 :: real"
  let ?R = "sqrt (sqrt (3 / 50)) * ?f + sqrt (sqrt (2 / 50)) * (2 - log 2 3)"
  let ?G = "(3 / 50) * ?f + (2 / 50) * (2 - log 2 3)"
  let ?B = "(47 / 100) * ?f + (48 / 100) * (2 - log 2 3)"
  note lb = log2_3_bounds
  have w: "texture_width ?w \<noteq> 0" "texture_height ?w \<noteq> 0"
    by (simp_all add: new_renderer_def)
  have ramp: "color_ramp ?w = ?ramp" "length (replicate 100 (Color 0 0 0)) = 100"
    by (simp_all add: new_renderer_def)
  have e: "escape (pixel_c (texture_width ?w) (texture_height ?w) (current_job ?w) 0 0)
             = (Complex 10 0, 1)"
    unfolding new_renderer_def FractalRenderer.simps pixel_c_corner
    by (rule escape_one_step) simp
  have out: "\<not> inside (Complex 10 0) 1" by (simp add: inside_def max_iterations_def)
  have s: "0 \<le> ?s" unfolding smoothed_10 using lb by linarith
  have first: "2 = \<lfloor>?s\<rfloor>" unfolding smoothed_10 using lb by linarith
  have second: "(3::int) = 2 + 1" by simp
  have factor: "?f = ?s - of_int 2" unfolding smoothed_10 by simp
  have len: "length (replicate 100 (Color 0 0 0)) = max_colors * 2" by (simp add: max_colors_def)
  have r2: "?ramp ! 2 = Color (sqrt (sqrt (2 / 50))) (2 / 50) (48 / 100)"
    using build_ramp_low [OF len, of 2] by (simp add: max_colors_def ramp_color_def Let_def)
  have r3: "?ramp ! 3 = Color (sqrt (sqrt (3 / 50))) (3 / 50) (47 / 100)"
    using build_ramp_low [OF len, of 3] by (simp add: max_colors_def ramp_color_def Let_def)
  have col: "Color ?R ?G ?B =
      color_plus (color_times (color_ramp ?w ! nat (3 mod 100)) ?f)
                 (color_times (color_ramp ?w ! nat (2 mod 100)) (1 - ?f))"
    unfolding ramp(1) by (simp add: r2 r3 color_plus_def color_times_def)
  have bound: "(0 * to_size_t (texture_width ?w) + 0) * 3 + 2 < length [0::8 word, 0, 0]"
    by simp
  have "13 \<le> ?G * 255" "?G * 255 < 14" using lb by argo+
  then have g: "\<lfloor>?G * 255\<rfloor> = 13" by linarith
  have "120 \<le> ?B * 255" "?B * 255 < 121" using lb by argo+
  then have b: "\<lfloor>?B * 255\<rfloor> = 120" by linarith
  from outside_pixel_written [OF w ramp e out s first second factor col bound]
  have "render_pixel ?w [0, 0, 0] 0 0 =
      Inr [word_of_int \<lfloor>?R * 255\<rfloor>, word_of_int \<lfloor>?G * 255\<rfloor>, word_of_int \<lfloor>?B * 255\<rfloor>]"
    by simp
  then show ?thesis unfolding g b by simp
qed

text \<open>
  Without the bound on \<open>s\<close> the cast is not the floor: the pixel with \<open>c = 10\<^sup>7\<close>
  leaves the loop after one iteration with \<open>s\<close> between \<open>-1\<close> and 0, and the kernel
  passes \<open>first = 0\<close> where \<open>floor s = -1\<close>.
\<close>

lemma smoothed_1e7: "smoothed (Complex 10000000 0) 1 = 1 + log 2 (3 / 7)"
proof -
  have c: "cmod (Complex 10000000 0) = 10 ^ 7" by (simp add: cmod_def)
  have a: "ln (1000::real) = 3 * ln 10"
    using ln_realpow [of "10::real" 3] by simp
  have b: "ln ((10::real) ^ 7) = 7 * ln 10"
    using ln_realpow [of "10::real" 7] by simp
  have p: "0 < ln (10::real)" by simp
  have "ln (3 * ln (10::real)) - ln (7 * ln 10) = ln ((3 * ln 10) / (7 * ln 10))"
    using p by (subst ln_div) simp_all
  also have "(3 * ln (10::real)) / (7 * ln 10) = 3 / 7" using p by simp
  finally have d: "ln (3 * ln (10::real)) - ln (7 * ln 10) = ln (3 / 7)" .
  show ?thesis
    unfolding smoothed_def c max_iterations_def
    by (simp only: of_nat_numeral a b d log_def of_nat_1)
qed

lemma log2_3_7: "- 2 < log 2 (3 / 7 :: real)" "log 2 (3 / 7 :: real) < - 1"
proof -
  have "(2::real) powr (- 2) < 3 / 7" by (simp add: powr_minus)
  then show "- 2 < log 2 (3 / 7 :: real)" by (simp add: less_log_iff)
  have "(3 / 7 :: real) < 2 powr (- 1)" by (simp add: powr_minus)
  then show "log 2 (3 / 7 :: real) < - 1" by (simp add: log_less_iff)
qed

theorem first_is_not_floor:
  "escape (pixel_c 1 1 \<lparr>y_start = 0, y_count = 1, scale = 1, offset = Complex (10000000 + 1) 1\<rparr> 0 0)
     = (Complex 10000000 0, 1)
   \<and> \<not> inside (Complex 10000000 0) 1
   \<and> pixel_args (Complex 10000000 0) 1 = Inr (0, 1, smoothed (Complex 10000000 0) 1)
   \<and> \<lfloor>smoothed (Complex 10000000 0) 1\<rfloor> = - 1"
proof -
  let ?s = "smoothed (Complex 10000000 0) 1"
  have e: "escape (pixel_c 1 1 \<lparr>y_start = 0, y_count = 1, scale = 1,
      offset = Complex (10000000 + 1) 1\<rparr> 0 0) = (Complex 10000000 0, 1)"
    unfolding pixel_c_corner by (rule escape_one_step) simp
  have out: "\<not> inside (Complex 10000000 0) 1" by (simp add: inside_def max_iterations_def)
  have lo: "- 1 < ?s" and hi: "?s < 0"
    unfolding smoothed_1e7 using log2_3_7 by linarith+
  have fl: "\<lfloor>?s\<rfloor> = - 1" using lo hi by (simp add: floor_eq_iff)
  have tr: "c_trunc ?s = 0" using lo hi by (simp add: c_trunc_def ceiling_eq_iff)
  have pa: "pixel_args (Complex 10000000 0) 1 = Inr (0, 1, ?s)"
    using pixel_args_trunc [OF out tr] by simp
  from e out pa fl show ?thesis by simp
qed

section \<open>The raster does not depend on the partition\<close>

lemma pixel_c_job:
  "pixel_c tw th job x y =
   pixel_c tw th \<lparr>y_start = 0, y_count = 0, scale = scale job, offset = offset job\<rparr> x y"
  by (simp add: pixel_c_def)

lemma WritePixel_Inr:
  "WritePixel W ramp td x y first second factor = Inr td' \<longleftrightarrow>
     (\<exists>color vr vg vb. pixel_color ramp first second factor = Inr color \<and>
        to_uchar (color_r color * 255) = Inr vr \<and>
        to_uchar (color_g color * 255) = Inr vg \<and>
        to_uchar (color_b color * 255) = Inr vb \<and>
        (y * W + x) * 3 + 2 < length td \<and>
        td' = td[(y * W + x) * 3 + 0 := vr, (y * W + x) * 3 + 1 := vg, (y * W + x) * 3 + 2 := vb])"
  by (auto simp: WritePixel_def Let_def store_def split: sum.splits if_splits)

lemma render_pixel_Inr:
  "render_pixel w td x y = Inr td' \<longleftrightarrow>
     (\<exists>vr vg vb.
        pixel_bytes (texture_width w) (texture_height w) (color_ramp w)
          (scale (current_job w)) (offset (current_job w)) x y = Inr (vr, vg, vb) \<and>
        (y * to_size_t (texture_width w) + x) * 3 + 2 < length td \<and>
        td' = td[(y * to_size_t (texture_width w) + x) * 3 + 0 := vr,
                 (y * to_size_t (texture_width w) + x) * 3 + 1 := vg,
                 (y * to_size_t (texture_width w) + x) * 3 + 2 := vb])"
  unfolding render_pixel_def pixel_bytes_def pixel_c_job [symmetric, of _ _ "current_job w"]
  by (auto simp: Let_def WritePixel_Inr split: sum.splits prod.splits)

lemma for_loop_append:
  "for_loop (xs @ ys) body s =
     (case for_loop xs body s of Inl e \<Rightarrow> Inl e | Inr s' \<Rightarrow> for_loop ys body s')"
  by (induction xs arbitrary: s) (auto split: sum.splits)

lemma for_loop_map: "for_loop (map f xs) body = for_loop xs (\<lambda>x. body (f x))"
proof
  fix s show "for_loop (map f xs) body s = for_loop xs (\<lambda>x. body (f x)) s"
    by (induction xs arbitrary: s) (auto split: sum.splits)
qed

lemma for_loop_concat:
  "for_loop (concat xss) body s = for_loop xss (\<lambda>xs. for_loop xs body) s"
  by (induction xss arbitrary: s) (auto simp: for_loop_append split: sum.splits)

lemma for_loop_cong:
  "(\<And>x s. x \<in> set xs \<Longrightarrow> body x s = body' x s) \<Longrightarrow> for_loop xs body s = for_loop xs body' s"
  by (induction xs arbitrary: s) (auto split: sum.splits)

lemma set_job_pixels:
  "set (job_pixels w job) =
     {(x, y). x < to_size_t (texture_width w) \<and> y \<in> set (job_rows job)}"
  by (auto simp: job_pixels_def row_columns_def)

lemma render_job_pixels:
  "render_job w td =
     for_loop (job_pixels w (current_job w)) (\<lambda>p t. render_pixel w t (fst p) (snd p)) td"
  by (simp add: render_job_def render_row_def job_pixels_def for_loop_concat for_loop_map)

lemma render_pixel_viewport:
  "scale j = scale j' \<Longrightarrow> offset j = offset j' \<Longrightarrow>
   render_pixel (w\<lparr>current_job := j\<rparr>) td x y = render_pixel (w\<lparr>current_job := j'\<rparr>) td x y"
  by (auto simp: render_pixel_def pixel_c_def Let_def split: prod.splits sum.splits)

lemma run_jobs_pixels:
  assumes "\<forall>j\<in>set js. scale j = scale j0 \<and> offset j = offset j0"
  shows "run_jobs w js td =
     for_loop (concat (map (job_pixels w) js))
       (\<lambda>p t. render_pixel (w\<lparr>current_job := j0\<rparr>) t (fst p) (snd p)) td"
  using assms
proof (induction js arbitrary: td)
  case Nil
  show ?case by simp
next
  case (Cons j js)
  have v: "scale j = scale j0" "offset j = offset j0" using Cons.prems by simp_all
  have jp: "job_pixels (w\<lparr>current_job := j\<rparr>) j = job_pixels w j"
    by (simp add: job_pixels_def row_columns_def)
  have "render_job (w\<lparr>current_job := j\<rparr>) td =
        for_loop (job_pixels w j) (\<lambda>p t. render_pixel (w\<lparr>current_job := j0\<rparr>) t (fst p) (snd p)) td"
    unfolding render_job_pixels using render_pixel_viewport [OF v] by (simp add: jp)
  with Cons show ?case by (simp add: for_loop_append split: sum.splits)
qed

lemma offsets_distinct:
  fixes W :: nat
  assumes "x < W" "x' < W" "y * W + x = y' * W + x'"
  shows "x = x' \<and> y = y'"
proof -
  have "(y * W + x) mod W = (y' * W + x') mod W" using assms(3) by simp
  then have x: "x = x'" using assms(1,2) by simp
  have "(y * W + x) div W = (y' * W + x') div W" using assms(3) by simp
  then have "y = y'" using assms(1,2) by simp
  with x show ?thesis by simp
qed

lemma update3_same:
  assumes "i \<noteq> j" "i \<noteq> k" "j \<noteq> k" "i < length td" "j < length td" "k < length td"
  shows "td[i := a, j := b, k := c] ! i = a"
    and "td[i := a, j := b, k := c] ! j = b"
    and "td[i := a, j := b, k := c] ! k = c"
  using assms by (simp_all add: nth_list_update)

lemma update3_other:
  assumes "i \<noteq> l" "j \<noteq> l" "k \<noteq> l"
  shows "td[i := a, j := b, k := c] ! l = td ! l"
  using assms by (simp add: nth_list_update)

lemma nth_triple_same:
  assumes "n * 3 + 2 < length td"
  shows "td[n * 3 + 0 := a, n * 3 + 1 := b, n * 3 + 2 := c] ! (n * 3 + 0) = a"
    and "td[n * 3 + 0 := a, n * 3 + 1 := b, n * 3 + 2 := c] ! (n * 3 + 1) = b"
    and "td[n * 3 + 0 := a, n * 3 + 1 := b, n * 3 + 2 := c] ! (n * 3 + 2) = c"
proof -
  have d: "n * 3 + 0 \<noteq> n * 3 + 1" "n * 3 + 0 \<noteq> n * 3 + 2" "n * 3 + 1 \<noteq> n * 3 + 2" by arith+
  have l: "n * 3 + 0 < length td" "n * 3 + 1 < length td" "n * 3 + 2 < length td"
    using assms by arith+
  show "td[n * 3 + 0 := a, n * 3 + 1 := b, n * 3 + 2 := c] ! (n * 3 + 0) = a"
    by (rule update3_same(1) [OF d l])
  show "td[n * 3 + 0 := a, n * 3 + 1 := b, n * 3 + 2 := c] ! (n * 3 + 1) = b"
    by (rule update3_same(2) [OF d l])
  show "td[n * 3 + 0 := a, n * 3 + 1 := b, n * 3 + 2 := c] ! (n * 3 + 2) = c"
    by (rule update3_same(3) [OF d l])
qed

lemma nth_triple_other:
  assumes "m \<noteq> n" "k < 3"
  shows "td[n * 3 + 0 := a, n * 3 + 1 := b, n * 3 + 2 := c] ! (m * 3 + k) = td ! (m * 3 + k)"
proof -
  have "n * 3 + 0 \<noteq> m * 3 + k" "n * 3 + 1 \<noteq> m * 3 + k" "n * 3 + 2 \<noteq> m * 3 + k"
    using assms by arith+
  then show ?thesis by (rule update3_other)
qed

lemma pixel_at_update_same:
  assumes "(y * W + x) * 3 + 2 < length td"
  shows "pixel_at W (td[(y * W + x) * 3 + 0 := vr, (y * W + x) * 3 + 1 := vg,
                        (y * W + x) * 3 + 2 := vb]) x y = (vr, vg, vb)"
  unfolding pixel_at_def Let_def by (simp only: nth_triple_same [OF assms])

lemma pixel_at_update_other:
  assumes "x < W" "x' < W" "(x', y') \<noteq> (x, y)"
  shows "pixel_at W (td[(y * W + x) * 3 + 0 := vr, (y * W + x) * 3 + 1 := vg,
                        (y * W + x) * 3 + 2 := vb]) x' y' = pixel_at W td x' y'"
proof -
  have ne: "y' * W + x' \<noteq> y * W + x"
  proof
    assume "y' * W + x' = y * W + x"
    from offsets_distinct [OF assms(2,1) this] assms(3) show False by blast
  qed
  have k: "(0::nat) < 3" "(1::nat) < 3" "(2::nat) < 3" by simp_all
  show ?thesis
    unfolding pixel_at_def Let_def
    by (simp only: nth_triple_other [OF ne k(1)] nth_triple_other [OF ne k(2)]
        nth_triple_other [OF ne k(3)])
qed

lemma render_pixels_effect:
  assumes "for_loop ps (\<lambda>p t. render_pixel w t (fst p) (snd p)) td = Inr td'"
    and "\<forall>p\<in>set ps. fst p < to_size_t (texture_width w)"
  shows "length td' = length td
    \<and> (\<forall>p\<in>set ps.
          pixel_bytes (texture_width w) (texture_height w) (color_ramp w)
            (scale (current_job w)) (offset (current_job w)) (fst p) (snd p) =
          Inr (pixel_at (to_size_t (texture_width w)) td' (fst p) (snd p)))
    \<and> (\<forall>x y. x < to_size_t (texture_width w) \<longrightarrow> (x, y) \<notin> set ps \<longrightarrow>
          pixel_at (to_size_t (texture_width w)) td' x y =
          pixel_at (to_size_t (texture_width w)) td x y)"
  using assms
proof (induction ps arbitrary: td)
  case Nil
  then show ?case by simp
next
  case (Cons p ps)
  let ?W = "to_size_t (texture_width w)"
  let ?PB = "pixel_bytes (texture_width w) (texture_height w) (color_ramp w)
            (scale (current_job w)) (offset (current_job w))"
  obtain x y where p: "p = (x, y)" by (cases p)
  from Cons.prems(1) obtain t1 where
    r1: "render_pixel w td x y = Inr t1" and
    rest: "for_loop ps (\<lambda>p t. render_pixel w t (fst p) (snd p)) t1 = Inr td'"
    by (auto simp: p split: sum.splits)
  from r1 obtain vr vg vb where
    pb: "?PB x y = Inr (vr, vg, vb)" and
    bound: "(y * ?W + x) * 3 + 2 < length td" and
    t1: "t1 = td[(y * ?W + x) * 3 + 0 := vr, (y * ?W + x) * 3 + 1 := vg, (y * ?W + x) * 3 + 2 := vb]"
    unfolding render_pixel_Inr by blast
  have xW: "x < ?W" using Cons.prems(2) by (simp add: p)
  have psW: "\<forall>p\<in>set ps. fst p < ?W" using Cons.prems(2) by simp
  note ih = Cons.IH [OF rest psW]
  have len: "length td' = length td" using ih t1 by simp
  have at1: "pixel_at ?W t1 x y = (vr, vg, vb)"
    unfolding t1 by (rule pixel_at_update_same [OF bound])
  have head: "?PB x y = Inr (pixel_at ?W td' x y)"
  proof (cases "(x, y) \<in> set ps")
    case True
    with ih show ?thesis by fastforce
  next
    case False
    with ih xW have "pixel_at ?W td' x y = pixel_at ?W t1 x y" by blast
    with at1 pb show ?thesis by simp
  qed
  have others: "pixel_at ?W td' x' y' = pixel_at ?W td x' y'"
    if "x' < ?W" "(x', y') \<notin> set (p # ps)" for x' y'
  proof -
    from that have ne: "(x', y') \<noteq> (x, y)" and nin: "(x', y') \<notin> set ps" by (simp_all add: p)
    from ih that(1) nin have "pixel_at ?W td' x' y' = pixel_at ?W t1 x' y'" by blast
    also have "\<dots> = pixel_at ?W td x' y'"
      unfolding t1 by (rule pixel_at_update_other [OF xW that(1) ne])
    finally show ?thesis .
  qed
  from len head ih others show ?case by (auto simp: p)
qed

lemma render_pixels_succeed:
  assumes "\<forall>p\<in>set ps. \<exists>v.
      pixel_bytes (texture_width w) (texture_height w) (color_ramp w)
        (scale (current_job w)) (offset (current_job w)) (fst p) (snd p) = Inr v"
    and "\<forall>p\<in>set ps. (snd p * to_size_t (texture_width w) + fst p) * 3 + 2 < length td"
  shows "\<exists>td'. for_loop ps (\<lambda>p t. render_pixel w t (fst p) (snd p)) td = Inr td'"
  using assms
proof (induction ps arbitrary: td)
  case Nil
  show ?case by simp
next
  case (Cons p ps)
  let ?W = "to_size_t (texture_width w)"
  obtain x y where p: "p = (x, y)" by (cases p)
  from Cons.prems obtain vr vg vb where
    "pixel_bytes (texture_width w) (texture_height w) (color_ramp w)
        (scale (current_job w)) (offset (current_job w)) x y = Inr (vr, vg, vb)"
    and "(y * ?W + x) * 3 + 2 < length td"
    by (fastforce simp: p)
  then have r1: "render_pixel w td x y =
      Inr (td[(y * ?W + x) * 3 + 0 := vr, (y * ?W + x) * 3 + 1 := vg, (y * ?W + x) * 3 + 2 := vb])"
    unfolding render_pixel_Inr by blast
  have "\<exists>td'. for_loop ps (\<lambda>p t. render_pixel w t (fst p) (snd p))
      (td[(y * ?W + x) * 3 + 0 := vr, (y * ?W + x) * 3 + 1 := vg, (y * ?W + x) * 3 + 2 := vb]) = Inr td'"
    using Cons.prems by (intro Cons.IH) simp_all
  with r1 show ?case by (simp add: p)
qed

lemma rasters_equal:
  assumes l1: "length r1 = W * H * 3" and l2: "length r2 = W * H * 3"
    and eq: "\<And>x y. x < W \<Longrightarrow> y < H \<Longrightarrow> pixel_at W r1 x y = pixel_at W r2 x y"
  shows "r1 = r2"
proof (rule nth_equalityI)
  show "length r1 = length r2" using l1 l2 by simp
next
  fix k assume "k < length r1"
  then have k: "k < W * H * 3" using l1 by simp
  then have W: "0 < W" by (cases W) simp_all
  let ?o = "k div 3"
  let ?x = "?o mod W" and ?y = "?o div W"
  have o: "?o < W * H" using k by (simp add: less_mult_imp_div_less)
  have x: "?x < W" using W by simp
  have y: "?y < H" using o by (simp add: less_mult_imp_div_less mult.commute)
  have off: "?y * W + ?x = ?o" by simp
  from eq [OF x y] have
    "r1 ! (?o * 3 + 0) = r2 ! (?o * 3 + 0)" "r1 ! (?o * 3 + 1) = r2 ! (?o * 3 + 1)"
    "r1 ! (?o * 3 + 2) = r2 ! (?o * 3 + 2)"
    by (simp_all add: pixel_at_def Let_def off)
  moreover have "k = ?o * 3 + 0 \<or> k = ?o * 3 + 1 \<or> k = ?o * 3 + 2" by presburger
  ultimately show "r1 ! k = r2 ! k" by metis
qed

lemma offset_in_raster:
  fixes W :: nat
  assumes "x < W" "y < H"
  shows "(y * W + x) * 3 + 2 < W * H * 3"
proof -
  have "y * W + x < Suc y * W" using assms(1) by simp
  also have "\<dots> \<le> H * W" using assms(2) by (intro mult_le_mono1) simp
  finally have "y * W + x < W * H" by (simp add: mult.commute)
  then show ?thesis by arith
qed

lemma set_jobs_pixels:
  "set (concat (map (job_pixels w) js)) =
     {(x, y). x < to_size_t (texture_width w) \<and> y \<in> set (concat (map job_rows js))}"
  by (auto simp: set_job_pixels)

lemma covering_pixels_raster:
  assumes ps: "set ps = {(x, y). x < to_size_t (texture_width w) \<and> y < H}"
    and len: "length td = to_size_t (texture_width w) * H * 3"
    and pb: "\<And>x y. x < to_size_t (texture_width w) \<Longrightarrow> y < H \<Longrightarrow>
      pixel_bytes (texture_width w) (texture_height w) (color_ramp w)
        (scale (current_job w)) (offset (current_job w)) x y =
      Inr (pixel_at (to_size_t (texture_width w)) r x y)"
    and lr: "length r = to_size_t (texture_width w) * H * 3"
  shows "for_loop ps (\<lambda>p t. render_pixel w t (fst p) (snd p)) td = Inr r"
proof -
  let ?W = "to_size_t (texture_width w)"
  have ok: "\<forall>p\<in>set ps. \<exists>v. pixel_bytes (texture_width w) (texture_height w) (color_ramp w)
        (scale (current_job w)) (offset (current_job w)) (fst p) (snd p) = Inr v"
  proof
    fix p assume "p \<in> set ps"
    then have "p \<in> {(x, y). x < ?W \<and> y < H}" using ps by simp
    then have "fst p < ?W" "snd p < H" by auto
    from pb [OF this] show "\<exists>v. pixel_bytes (texture_width w) (texture_height w) (color_ramp w)
        (scale (current_job w)) (offset (current_job w)) (fst p) (snd p) = Inr v" by blast
  qed
  have bd: "\<forall>p\<in>set ps. (snd p * ?W + fst p) * 3 + 2 < length td"
  proof
    fix p assume "p \<in> set ps"
    then have "p \<in> {(x, y). x < ?W \<and> y < H}" using ps by simp
    then have "fst p < ?W" "snd p < H" by auto
    then show "(snd p * ?W + fst p) * 3 + 2 < length td"
      unfolding len by (rule offset_in_raster)
  qed
  from render_pixels_succeed [OF ok bd] obtain r' where
    run: "for_loop ps (\<lambda>p t. render_pixel w t (fst p) (snd p)) td = Inr r'" by blast
  have inW: "\<forall>p\<in>set ps. fst p < ?W" using ps by auto
  note eff = render_pixels_effect [OF run inW]
  have "r' = r"
  proof (rule rasters_equal [of _ ?W H])
    show "length r' = ?W * H * 3" using eff len by simp
    show "length r = ?W * H * 3" by (rule lr)
    fix x y assume xy: "x < ?W" "y < H"
    then have "(x, y) \<in> set ps" using ps by simp
    with eff [THEN conjunct2, THEN conjunct1, rule_format, of "(x, y)"]
    have "pixel_bytes (texture_width w) (texture_height w) (color_ramp w)
        (scale (current_job w)) (offset (current_job w)) x y = Inr (pixel_at ?W r' x y)"
      by simp
    with pb [OF xy] show "pixel_at ?W r' x y = pixel_at ?W r x y" by simp
  qed
  with run show ?thesis by simp
qed

lemma render_pixel_black:
  assumes "scale (current_job w) = 0" "offset (current_job w) = 0"
    "texture_width w \<noteq> 0" "texture_height w \<noteq> 0"
  shows "render_pixel w td x y =
    WritePixel (to_size_t (texture_width w)) (color_ramp w) td x y (- 1) 0 0"
proof -
  have c: "pixel_c (texture_width w) (texture_height w) (current_job w) x y = Complex 0 0"
    using assms(1,2) by (simp add: pixel_c_def complex_eq_iff)
  have e: "escape (Complex 0 0) = (Complex 0 0, 1000)"
    using escape_zero_fixed [of 0] by (simp add: escape_is_loop)
  have p: "pixel_args (Complex 0 0) 1000 = Inr (- 1, 0, 0)"
    by (simp add: pixel_args_def inside_def max_iterations_def)
  show ?thesis using assms(3,4) by (simp add: render_pixel_def c e p)
qed

text \<open>
  C6. The bytes of a pixel are a function of \<open>x\<close>, \<open>y\<close>, the size of the raster, the
  scale and offset of the job and the ramp (\<open>pixel_bytes\<close>). For a fixed raster size,
  scale, offset and ramp, take two lists of jobs whose bands each cover the rows
  \<open>[0, H)\<close>; if running the first list gives a raster, running the second list gives
  the same raster, byte for byte, whatever the rasters held before, and so does any
  sequence of pixel writes that visits every pixel of the raster, in any order. Every
  pixel of the result holds the bytes of \<open>pixel_bytes\<close>.
\<close>

theorem raster_independent_of_partition:
  assumes cover1: "set (concat (map job_rows js1)) = {0 ..< H}"
    and cover2: "set (concat (map job_rows js2)) = {0 ..< H}"
    and view: "\<forall>j\<in>set js1 \<union> set js2. scale j = sc \<and> offset j = off"
    and len1: "length td1 = to_size_t (texture_width w) * H * 3"
    and len2: "length td2 = to_size_t (texture_width w) * H * 3"
    and run1: "run_jobs w js1 td1 = Inr r"
  shows "run_jobs w js2 td2 = Inr r
    \<and> (\<forall>x y. x < to_size_t (texture_width w) \<and> y < H \<longrightarrow>
          pixel_bytes (texture_width w) (texture_height w) (color_ramp w) sc off x y =
          Inr (pixel_at (to_size_t (texture_width w)) r x y))
    \<and> (\<forall>ps. set ps = {(x, y). x < to_size_t (texture_width w) \<and> y < H} \<longrightarrow>
          for_loop ps
            (\<lambda>p t. render_pixel
                (w\<lparr>current_job := \<lparr>y_start = 0, y_count = 0, scale = sc, offset = off\<rparr>\<rparr>)
                t (fst p) (snd p)) td2 = Inr r)"
proof -
  let ?W = "to_size_t (texture_width w)"
  let ?j0 = "\<lparr>y_start = 0, y_count = 0, scale = sc, offset = off\<rparr>"
  let ?w0 = "w\<lparr>current_job := ?j0\<rparr>"
  let ?ps1 = "concat (map (job_pixels w) js1)" and ?ps2 = "concat (map (job_pixels w) js2)"
  have v1: "\<forall>j\<in>set js1. scale j = scale ?j0 \<and> offset j = offset ?j0" using view by simp
  have v2: "\<forall>j\<in>set js2. scale j = scale ?j0 \<and> offset j = offset ?j0" using view by simp
  have s1: "set ?ps1 = {(x, y). x < to_size_t (texture_width ?w0) \<and> y < H}"
    unfolding set_jobs_pixels cover1 by simp
  have s2: "set ?ps2 = {(x, y). x < to_size_t (texture_width ?w0) \<and> y < H}"
    unfolding set_jobs_pixels cover2 by simp
  have run: "for_loop ?ps1 (\<lambda>p t. render_pixel ?w0 t (fst p) (snd p)) td1 = Inr r"
    using run1 unfolding run_jobs_pixels [OF v1] .
  have inW: "\<forall>p\<in>set ?ps1. fst p < to_size_t (texture_width ?w0)"
    unfolding s1 by auto
  note eff = render_pixels_effect [OF run inW]
  have lr: "length r = to_size_t (texture_width ?w0) * H * 3" using eff len1 by simp
  have pb: "pixel_bytes (texture_width ?w0) (texture_height ?w0) (color_ramp ?w0)
        (scale (current_job ?w0)) (offset (current_job ?w0)) x y =
      Inr (pixel_at (to_size_t (texture_width ?w0)) r x y)"
    if "x < to_size_t (texture_width ?w0)" "y < H" for x y
  proof -
    from that have "(x, y) \<in> set ?ps1" using s1 by simp
    with eff [THEN conjunct2, THEN conjunct1, rule_format, of "(x, y)"]
    show ?thesis by simp
  qed
  have l2: "length td2 = to_size_t (texture_width ?w0) * H * 3" using len2 by simp
  have any: "for_loop ps (\<lambda>p t. render_pixel ?w0 t (fst p) (snd p)) td2 = Inr r"
    if "set ps = {(x, y). x < ?W \<and> y < H}" for ps
    using that by (intro covering_pixels_raster [of _ ?w0 H, OF _ l2 pb lr]) simp_all
  have a: "run_jobs w js2 td2 = Inr r"
    unfolding run_jobs_pixels [OF v2] using s2 by (intro any) simp
  have b: "pixel_bytes (texture_width w) (texture_height w) (color_ramp w) sc off x y =
          Inr (pixel_at ?W r x y)" if "x < ?W \<and> y < H" for x y
    using pb [of x y] that by simp
  from a b any show ?thesis by blast
qed

theorem raster_independent_of_partition_witness:
  "run_jobs (new_renderer (replicate 100 (Color 1 1 1)) 1 2
       \<lparr>y_start = 0, y_count = 0, scale = 0, offset = 0\<rparr>)
     [\<lparr>y_start = 0, y_count = 1, scale = 0, offset = 0\<rparr>,
      \<lparr>y_start = 1, y_count = 1, scale = 0, offset = 0\<rparr>]
     [9, 9, 9, 9, 9, 9] = Inr [0, 0, 0, 0, 0, 0]"
proof -
  let ?w = "new_renderer (replicate 100 (Color 1 1 1)) 1 2
       \<lparr>y_start = 0, y_count = 0, scale = 0, offset = 0\<rparr>"
  let ?js1 = "[\<lparr>y_start = 0, y_count = 2, scale = 0, offset = 0\<rparr>]"
  let ?js2 = "[\<lparr>y_start = 0, y_count = 1, scale = 0, offset = 0\<rparr>,
      \<lparr>y_start = 1, y_count = 1, scale = 0, offset = 0\<rparr>]"
  have W: "to_size_t (texture_width ?w) = 1"
    by (simp add: new_renderer_def to_size_t_def c_trunc_def)
  have "concat (map job_rows ?js1) = [0 ..< 2]" by (simp add: job_rows_def) (simp add: upt_rec)
  then have c1: "set (concat (map job_rows ?js1)) = {0 ..< 2}" by (simp only: set_upt)
  have "concat (map job_rows ?js2) = [0 ..< 2]" by (simp add: job_rows_def) (simp add: upt_rec)
  then have c2: "set (concat (map job_rows ?js2)) = {0 ..< 2}" by (simp only: set_upt)
  have v: "\<forall>j\<in>set ?js1 \<union> set ?js2. scale j = 0 \<and> offset j = 0" by simp
  have l1: "length [1, 2, 3, 4, 5, 6 :: 8 word] = to_size_t (texture_width ?w) * 2 * 3"
    unfolding W by simp
  have l2: "length [9, 9, 9, 9, 9, 9 :: 8 word] = to_size_t (texture_width ?w) * 2 * 3"
    unfolding W by simp
  have rp: "render_pixel (?w\<lparr>current_job := \<lparr>y_start = 0, y_count = 2, scale = 0, offset = 0\<rparr>\<rparr>)
      td x y = WritePixel 1 (replicate 100 (Color 1 1 1)) td x y (- 1) 0 0" for td x y
    using render_pixel_black
      [of "?w\<lparr>current_job := \<lparr>y_start = 0, y_count = 2, scale = 0, offset = 0\<rparr>\<rparr>" td x y]
    by (simp add: new_renderer_def to_size_t_def c_trunc_def)
  have rows: "job_rows \<lparr>y_start = 0, y_count = 2, scale = 0, offset = 0\<rparr> = [0, 1]"
    by (simp add: job_rows_def)
  have cols: "row_columns (?w\<lparr>current_job := \<lparr>y_start = 0, y_count = 2, scale = 0, offset = 0\<rparr>\<rparr>) = [0]"
    by (simp add: row_columns_def new_renderer_def to_size_t_def c_trunc_def)
  have r1: "run_jobs ?w ?js1 [1, 2, 3, 4, 5, 6] = Inr [0, 0, 0, 0, 0, 0]"
    by (simp add: render_job_def render_row_def rows cols rp WritePixel_inside)
  from raster_independent_of_partition [OF c1 c2 v l1 l2 r1] show ?thesis by simp
qed

section \<open>The job_done flag\<close>

lemmas upd_defs = set_current_job_def set_job_done_def set_running_def goto_def

lemma flag_inv_step:
  assumes "step s s'" "\<forall>k. flag_inv s k"
  shows "flag_inv s' k"
  using assms
  by (cases rule: step.cases; cases k)
     (auto simp: flag_inv_def upd_defs knows_done_def rendering_def starting_def
           split: wid.splits)

lemma flag_inv_initial: "flag_inv (initial ramp width height td j1 j2) k"
  by (simp add: flag_inv_def initial_def new_renderer_def knows_done_def rendering_def starting_def)

lemma reachable_flag_inv: "reachable s \<Longrightarrow> flag_inv s k"
proof (induction arbitrary: k rule: reachable.induct)
  case (at_start ramp width height td j1 j2)
  show ?case by (rule flag_inv_initial)
next
  case (after_step s s')
  then show ?case using flag_inv_step by blast
qed

lemma band_pixels_iff:
  "(x, y) \<in> set (job_pixels w job) \<longleftrightarrow>
     x < to_size_t (texture_width w) \<and> y_start job \<le> y \<and> y < y_start job + y_count job"
  by (auto simp: set_job_pixels job_rows_def)

lemma rows_written_band:
  "rows_written s k y \<Longrightarrow>
   \<not> y < y_start (current_job (renderer s k)) + y_count (current_job (renderer s k)) \<Longrightarrow>
   band_written s k"
  by (auto simp: rows_written_def band_written_def band_pixels_iff subset_iff)

lemma rows_written_Suc:
  "rows_written s k y \<Longrightarrow>
   \<forall>x'. x' < to_size_t (texture_width (renderer s k)) \<longrightarrow> (x', y) \<in> written s k \<Longrightarrow>
   rows_written s k (Suc y)"
  by (auto simp: rows_written_def less_Suc_eq)

lemma rows_written_start: "rows_written s k (y_start (current_job (renderer s k)))"
  by (auto simp: rows_written_def)

text \<open>Steps that leave the worker's job, width and written pixels alone, or add a pixel.\<close>

lemma rows_written_mono:
  "rows_written s k y \<Longrightarrow> renderer s' k = renderer s k \<Longrightarrow> written s k \<subseteq> written s' k \<Longrightarrow>
   rows_written s' k y"
  by (auto simp: rows_written_def)

lemma band_written_mono:
  "band_written s k \<Longrightarrow> current_job (renderer s' k) = current_job (renderer s k) \<Longrightarrow>
   texture_width (renderer s' k) = texture_width (renderer s k) \<Longrightarrow>
   written s k \<subseteq> written s' k \<Longrightarrow> band_written s' k"
  by (auto simp: band_written_def band_pixels_iff subset_iff)


lemma rendering_simps [simp]:
  "rendering (Row y)" "rendering (Pixel y x)" "rendering Finish" "rendering (Branch b) = (\<not> b)"
  "\<not> rendering Not_Started" "\<not> rendering Check" "\<not> rendering Read_Running"
  "\<not> rendering Exited" "\<not> rendering (Crashed e)"
  by (simp_all add: rendering_def)

lemma band_inv_frame:
  assumes "band_inv s k" "renderer s' k = renderer s k" "worker_at s' k = worker_at s k"
    "written s' k = written s k" "app_at s = Clear k \<longrightarrow> app_at s' = Clear k"
  shows "band_inv s' k"
  using assms by (auto simp: band_inv_def rows_written_def band_written_def)

lemma job_pixels_update [simp]:
  "job_pixels (w\<lparr>running := b\<rparr>) = job_pixels w"
  "job_pixels (w\<lparr>job_done := b\<rparr>) = job_pixels w"
  "job_pixels (w\<lparr>current_job := j\<rparr>) = job_pixels w"
  by (simp_all add: job_pixels_def row_columns_def fun_eq_iff)

lemma band_inv_idle:
  assumes "\<not> rendering (worker_at s k)"
    and "job_done (renderer s k) \<Longrightarrow> app_at s \<noteq> Clear k \<Longrightarrow> band_written s k"
  shows "band_inv s k"
  using assms by (auto simp: band_inv_def)

lemma flag_inv_idle:
  assumes "flag_inv s k" "starting (app_at s) \<or> knows_done (app_at s) k"
  shows "\<not> rendering (worker_at s k)"
    and "starting (app_at s) \<Longrightarrow> \<not> job_done (renderer s k)"
  using assms by (auto simp: flag_inv_def)

lemma knows_done_own [simp]: "knows_done (Assign k) k" "knows_done (Clear k) k"
  by (cases k; simp add: knows_done_def)+

lemma starting_simps [simp]: "starting (Init_Assign k)" "starting (Init_Clear k)"
  by (simp_all add: starting_def)

lemma band_inv_step:
  assumes "step s s'" "flag_inv s k" "band_inv s k"
  shows "band_inv s' k"
  using assms(1)
proof (cases rule: step.cases)
  case (init_assign k')
  show ?thesis
  proof (cases "k' = k")
    case False
    with init_assign show ?thesis
      by (intro band_inv_frame [OF assms(3)]) (auto simp: upd_defs split: wid.splits)
  next
    case True
    note idle = flag_inv_idle [OF assms(2)]
    from init_assign True have a: "starting (app_at s) \<or> knows_done (app_at s) k" by simp
    have w: "worker_at s' k = worker_at s k" using init_assign by (simp add: upd_defs)
    have d: "\<not> job_done (renderer s' k) \<or> app_at s' = Clear k"
      using init_assign True idle(2) by (auto simp: upd_defs)
    show ?thesis
      by (rule band_inv_idle) (use idle(1) [OF a] w d in auto)
  qed
next
  case (init_clear k')
  show ?thesis
  proof (cases "k' = k")
    case False
    with init_clear show ?thesis
      by (intro band_inv_frame [OF assms(3)]) (auto simp: upd_defs split: wid.splits)
  next
    case True
    note idle = flag_inv_idle [OF assms(2)]
    from init_clear True have a: "starting (app_at s) \<or> knows_done (app_at s) k" by simp
    have w: "worker_at s' k = worker_at s k" using init_clear by (simp add: upd_defs)
    have d: "\<not> job_done (renderer s' k) \<or> app_at s' = Clear k"
      using init_clear True idle(2) by (auto simp: upd_defs)
    show ?thesis
      by (rule band_inv_idle) (use idle(1) [OF a] w d in auto)
  qed
next
  case (spawn k')
  show ?thesis
  proof (cases "k' = k")
    case False
    with spawn show ?thesis
      by (intro band_inv_frame [OF assms(3)]) (auto simp: upd_defs split: wid.splits)
  next
    case True
    with spawn assms(3) show ?thesis
      by (auto simp: band_inv_def upd_defs band_written_def rows_written_def split: wid.splits)
  qed
next
  case (poll_done k')
  then show ?thesis
    by (intro band_inv_frame [OF assms(3)]) (auto split: wid.splits)
next
  case (poll_busy k')
  then show ?thesis
    by (intro band_inv_frame [OF assms(3)]) (auto split: wid.splits)
next
  case (update elapsed)
  then show ?thesis
    by (intro band_inv_frame [OF assms(3)]) (auto split: wid.splits)
next
  case (assign k')
  show ?thesis
  proof (cases "k' = k")
    case False
    with assign show ?thesis
      by (intro band_inv_frame [OF assms(3)]) (auto simp: upd_defs split: wid.splits)
  next
    case True
    note idle = flag_inv_idle [OF assms(2)]
    from assign True have a: "starting (app_at s) \<or> knows_done (app_at s) k" by simp
    have w: "worker_at s' k = worker_at s k" using assign by (simp add: upd_defs)
    have d: "\<not> job_done (renderer s' k) \<or> app_at s' = Clear k"
      using assign True idle(2) by (auto simp: upd_defs)
    show ?thesis
      by (rule band_inv_idle) (use idle(1) [OF a] w d in auto)
  qed
next
  case (clear k')
  show ?thesis
  proof (cases "k' = k")
    case False
    with clear show ?thesis
      by (intro band_inv_frame [OF assms(3)]) (auto simp: upd_defs split: wid.splits)
  next
    case True
    note idle = flag_inv_idle [OF assms(2)]
    from clear True have a: "starting (app_at s) \<or> knows_done (app_at s) k" by simp
    have w: "worker_at s' k = worker_at s k" using clear by (simp add: upd_defs)
    have d: "\<not> job_done (renderer s' k) \<or> app_at s' = Clear k"
      using clear True idle(2) by (auto simp: upd_defs)
    show ?thesis
      by (rule band_inv_idle) (use idle(1) [OF a] w d in auto)
  qed
next
  case close
  then show ?thesis
    by (intro band_inv_frame [OF assms(3)]) (auto split: wid.splits)
next
  case (stop k')
  show ?thesis
  proof (cases "k' = k")
    case False
    with stop show ?thesis
      by (intro band_inv_frame [OF assms(3)]) (auto simp: upd_defs split: wid.splits)
  next
    case True
    with stop assms(3) show ?thesis
      by (auto simp: band_inv_def upd_defs band_written_def rows_written_def split: wid.splits)
  qed
next
  case (check k')
  show ?thesis
  proof (cases "k' = k")
    case False
    with check show ?thesis
      by (intro band_inv_frame [OF assms(3)]) (auto simp: upd_defs split: wid.splits)
  next
    case True
    with check assms(3) show ?thesis
      by (auto simp: band_inv_def upd_defs band_written_def rows_written_def split: wid.splits)
  qed
next
  case (idle k')
  show ?thesis
  proof (cases "k' = k")
    case False
    with idle show ?thesis
      by (intro band_inv_frame [OF assms(3)]) (auto simp: upd_defs split: wid.splits)
  next
    case True
    with idle assms(3) show ?thesis
      by (auto simp: band_inv_def upd_defs band_written_def rows_written_def split: wid.splits)
  qed
next
  case (begin_job k')
  show ?thesis
  proof (cases "k' = k")
    case False
    with begin_job show ?thesis
      by (intro band_inv_frame [OF assms(3)]) (auto simp: upd_defs split: wid.splits)
  next
    case True
    with begin_job assms(3) show ?thesis
      by (auto simp: band_inv_def upd_defs band_written_def rows_written_def split: wid.splits)
  qed
next
  case (row k' y)
  show ?thesis
  proof (cases "k' = k")
    case False
    with row show ?thesis
      by (intro band_inv_frame [OF assms(3)]) (auto simp: upd_defs split: wid.splits)
  next
    case True
    with row assms(3) show ?thesis
      by (auto simp: band_inv_def upd_defs band_written_def rows_written_def split: wid.splits)
  qed
next
  case (rows_done k' y)
  show ?thesis
  proof (cases "k' = k")
    case False
    with rows_done show ?thesis
      by (intro band_inv_frame [OF assms(3)]) (auto simp: upd_defs split: wid.splits)
  next
    case True
    from rows_done True assms(3) have r: "rows_written s k y" by (simp add: band_inv_def)
    from rows_written_band [OF r] rows_done True have b: "band_written s k" by simp
    from rows_done True assms(3) b show ?thesis
      by (auto simp: band_inv_def upd_defs band_written_def)
  qed
next
  case (pixel k' y x t)
  show ?thesis
  proof (cases "k' = k")
    case False
    with pixel show ?thesis
      by (intro band_inv_frame [OF assms(3)]) (auto simp: upd_defs split: wid.splits)
  next
    case True
    from pixel True assms(3) have r: "rows_written s k y"
      and c: "\<forall>x'. x' < x \<and> x' < to_size_t (texture_width (renderer s k)) \<longrightarrow> (x', y) \<in> written s k"
      and ys: "y_start (current_job (renderer s k)) \<le> y"
      and d: "job_done (renderer s k) \<and> app_at s \<noteq> Clear k \<longrightarrow> band_written s k"
      by (simp_all add: band_inv_def)
    have e: "renderer s' k = renderer s k" "written s' k = insert (x, y) (written s k)"
      "worker_at s' k = Pixel y (x + 1)" "app_at s' = app_at s"
      using pixel True by (simp_all add: upd_defs)
    have r': "rows_written s' k y"
      by (rule rows_written_mono [OF r]) (auto simp: e)
    have c': "\<forall>x'. x' < x + 1 \<and> x' < to_size_t (texture_width (renderer s' k)) \<longrightarrow> (x', y) \<in> written s' k"
      using c by (auto simp: e less_Suc_eq)
    have d': "job_done (renderer s' k) \<and> app_at s' \<noteq> Clear k \<longrightarrow> band_written s' k"
      using d band_written_mono [of s k s'] by (auto simp: e)
    show ?thesis
      unfolding band_inv_def using r' c' d' ys by (simp add: e)
  qed
next
  case (pixel_fault k' y x e)
  show ?thesis
  proof (cases "k' = k")
    case False
    with pixel_fault show ?thesis
      by (intro band_inv_frame [OF assms(3)]) (auto simp: upd_defs split: wid.splits)
  next
    case True
    with pixel_fault assms(3) show ?thesis
      by (auto simp: band_inv_def upd_defs band_written_def rows_written_def split: wid.splits)
  qed
next
  case (row_done k' y x)
  show ?thesis
  proof (cases "k' = k")
    case False
    with row_done show ?thesis
      by (intro band_inv_frame [OF assms(3)]) (auto simp: upd_defs split: wid.splits)
  next
    case True
    from row_done True assms(3) have r: "rows_written s k y"
      and c: "\<forall>x'. x' < x \<and> x' < to_size_t (texture_width (renderer s k)) \<longrightarrow> (x', y) \<in> written s k"
      and ys: "y_start (current_job (renderer s k)) \<le> y"
      and d: "job_done (renderer s k) \<and> app_at s \<noteq> Clear k \<longrightarrow> band_written s k"
      by (simp_all add: band_inv_def)
    have full: "\<forall>x'. x' < to_size_t (texture_width (renderer s k)) \<longrightarrow> (x', y) \<in> written s k"
      using c row_done True by auto
    have e: "renderer s' k = renderer s k" "written s' k = written s k"
      "worker_at s' k = Row (y + 1)" "app_at s' = app_at s"
      using row_done True by (simp_all add: upd_defs)
    have r': "rows_written s' k (Suc y)"
      by (rule rows_written_mono [OF rows_written_Suc [OF r full]]) (simp_all add: e)
    have d': "job_done (renderer s' k) \<and> app_at s' \<noteq> Clear k \<longrightarrow> band_written s' k"
      using d band_written_mono [of s k s'] by (auto simp: e)
    show ?thesis
      unfolding band_inv_def using r' d' ys by (simp add: e)
  qed
next
  case (finish k')
  show ?thesis
  proof (cases "k' = k")
    case False
    with finish show ?thesis
      by (intro band_inv_frame [OF assms(3)]) (auto simp: upd_defs split: wid.splits)
  next
    case True
    with finish assms(3) show ?thesis
      by (auto simp: band_inv_def upd_defs band_written_def rows_written_def split: wid.splits)
  qed
next
  case (again k')
  show ?thesis
  proof (cases "k' = k")
    case False
    with again show ?thesis
      by (intro band_inv_frame [OF assms(3)]) (auto simp: upd_defs split: wid.splits)
  next
    case True
    with again assms(3) show ?thesis
      by (auto simp: band_inv_def upd_defs band_written_def rows_written_def split: wid.splits)
  qed
next
  case (leave k')
  show ?thesis
  proof (cases "k' = k")
    case False
    with leave show ?thesis
      by (intro band_inv_frame [OF assms(3)]) (auto simp: upd_defs split: wid.splits)
  next
    case True
    with leave assms(3) show ?thesis
      by (auto simp: band_inv_def upd_defs band_written_def rows_written_def split: wid.splits)
  qed
qed

lemma band_inv_initial: "band_inv (initial ramp width height td j1 j2) k"
  by (simp add: band_inv_def initial_def new_renderer_def)

lemma reachable_band_inv: "reachable s \<Longrightarrow> band_inv s k"
proof (induction arbitrary: k rule: reachable.induct)
  case (at_start ramp width height td j1 j2)
  show ?case by (rule band_inv_initial)
next
  case (after_step s s')
  show ?case
    by (rule band_inv_step [OF after_step.hyps(2) reachable_flag_inv [OF after_step.hyps(1)]
        after_step.IH])
qed

text \<open>The bands of the two workers stay apart.\<close>

lemma next_jobs_rows:
  "y_start (fst (next_jobs e js)) = y_start (fst js)"
  "y_count (fst (next_jobs e js)) = y_count (fst js)"
  "y_start (snd (next_jobs e js)) = y_start (snd js)"
  "y_count (snd (next_jobs e js)) = y_count (snd js)"
  by (simp_all add: next_jobs_def Let_def)

lemma job_for_next_jobs:
  "y_start (job_for k (next_jobs e js)) = y_start (job_for k js)"
  "y_count (job_for k (next_jobs e js)) = y_count (job_for k js)"
  by (cases k; simp add: job_for_def next_jobs_rows)+

lemma geom_inv_initial: "geom_inv (initial ramp width height td j1 j2)"
  by (auto simp: geom_inv_def initial_def new_renderer_def first_jobs_def Let_def assigned_def
      split: wid.splits)

lemma geom_inv_step:
  assumes "step s s'" "geom_inv s"
  shows "geom_inv s'"
  using assms
  by (cases rule: step.cases)
     (auto simp: geom_inv_def upd_defs assigned_def next_jobs_rows job_for_next_jobs
           split: wid.splits)

lemma reachable_geom_inv: "reachable s \<Longrightarrow> geom_inv s"
  by (induction rule: reachable.induct) (auto intro: geom_inv_initial geom_inv_step)

lemma bands_apart:
  assumes "geom_inv s" "\<not> starting (app_at s)" "k' \<noteq> k"
    and "y_start (current_job (renderer s k)) \<le> y"
        "y < y_start (current_job (renderer s k)) + y_count (current_job (renderer s k))"
    and "y_start (current_job (renderer s k')) \<le> y'"
        "y' < y_start (current_job (renderer s k')) + y_count (current_job (renderer s k'))"
  shows "y' \<noteq> y"
proof -
  have a: "assigned (app_at s) Worker" "assigned (app_at s) Worker2"
    using assms(2) by (auto simp: assigned_def starting_def)
  from assms(1) a have
    w1: "y_start (current_job (renderer s Worker)) = y_start (fst (app_jobs s))"
        "y_count (current_job (renderer s Worker)) = y_count (fst (app_jobs s))" and
    w2: "y_start (current_job (renderer s Worker2)) = y_start (snd (app_jobs s))"
    and ad: "y_start (fst (app_jobs s)) + y_count (fst (app_jobs s)) \<le> y_start (snd (app_jobs s))"
    unfolding geom_inv_def job_for_def by (force)+
  show ?thesis
  proof (cases k)
    case Worker
    with assms(3) have "k' = Worker2" by (cases k') simp_all
    with Worker assms(4-7) w1 w2 ad show ?thesis by simp
  next
    case Worker2
    with assms(3) have "k' = Worker" by (cases k') simp_all
    with Worker2 assms(4-7) w1 w2 ad show ?thesis by simp
  qed
qed

lemma same_width:
  "geom_inv s \<Longrightarrow> texture_width (renderer s k') = texture_width (renderer s k)"
  by (cases k; cases k') (simp_all add: geom_inv_def)

text \<open>What the worker has written is in the raster, whatever the other worker does.\<close>

lemma render_pixel_same:
  assumes "render_pixel w td x y = Inr t"
  shows "pixel_bytes (texture_width w) (texture_height w) (color_ramp w)
           (scale (current_job w)) (offset (current_job w)) x y
         = Inr (pixel_at (to_size_t (texture_width w)) t x y)"
proof -
  from assms obtain vr vg vb where
    b: "pixel_bytes (texture_width w) (texture_height w) (color_ramp w)
          (scale (current_job w)) (offset (current_job w)) x y = Inr (vr, vg, vb)" and
    l: "(y * to_size_t (texture_width w) + x) * 3 + 2 < length td" and
    t: "t = td[(y * to_size_t (texture_width w) + x) * 3 + 0 := vr,
               (y * to_size_t (texture_width w) + x) * 3 + 1 := vg,
               (y * to_size_t (texture_width w) + x) * 3 + 2 := vb]"
    unfolding render_pixel_Inr by blast
  show ?thesis unfolding b t by (simp only: pixel_at_update_same [OF l])
qed

lemma render_pixel_other:
  assumes "render_pixel w td x y = Inr t"
    and "x < to_size_t (texture_width w)" "x' < to_size_t (texture_width w)" "(x', y') \<noteq> (x, y)"
  shows "pixel_at (to_size_t (texture_width w)) t x' y'
         = pixel_at (to_size_t (texture_width w)) td x' y'"
proof -
  from assms(1) obtain vr vg vb where
    t: "t = td[(y * to_size_t (texture_width w) + x) * 3 + 0 := vr,
               (y * to_size_t (texture_width w) + x) * 3 + 1 := vg,
               (y * to_size_t (texture_width w) + x) * 3 + 2 := vb]"
    unfolding render_pixel_Inr by blast
  show ?thesis unfolding t by (rule pixel_at_update_other [OF assms(2,3,4)])
qed

lemma stored_inv_frame:
  assumes "stored_inv s k"
    and "texture_width (renderer s' k) = texture_width (renderer s k)"
        "texture_height (renderer s' k) = texture_height (renderer s k)"
        "color_ramp (renderer s' k) = color_ramp (renderer s k)"
        "current_job (renderer s' k) = current_job (renderer s k)"
    and "\<And>y x. worker_at s' k = Pixel y x \<Longrightarrow> worker_at s k = Pixel y x"
    and "written s' k = written s k" "raster s' = raster s"
    and "app_at s = Clear k \<or> app_at s = Init_Clear k \<Longrightarrow>
         app_at s' = Clear k \<or> app_at s' = Init_Clear k"
  shows "stored_inv s' k"
  using assms
  by (auto simp: stored_inv_def pixel_stored_def job_pixels_def row_columns_def)

lemma stored_inv_cleared:
  assumes "written s k = {} \<or> app_at s = Clear k \<or> app_at s = Init_Clear k"
    and "\<And>y x. worker_at s k \<noteq> Pixel y x"
  shows "stored_inv s k"
  using assms by (auto simp: stored_inv_def)

lemma stored_inv_initial: "stored_inv (initial ramp width height td j1 j2) k"
  by (rule stored_inv_cleared) (simp_all add: initial_def)

lemma stored_inv_step:
  assumes st: "step s s'" and fl: "\<And>k. flag_inv s k" and ge: "geom_inv s"
    and bi: "\<And>k. band_inv s k" and inv: "\<And>k. stored_inv s k"
  shows "stored_inv s' k"
  using st
proof (cases rule: step.cases)
  case (init_assign k')
  show ?thesis
  proof (cases "k' = k")
    case False
    with init_assign show ?thesis
      by (intro stored_inv_frame [OF inv]) (auto simp: upd_defs)
  next
    case True
    from init_assign True have "starting (app_at s)" by simp
    with fl [of k] have "worker_at s k = Not_Started" by (simp add: flag_inv_def)
    with init_assign True show ?thesis
      by (intro stored_inv_cleared) (auto simp: upd_defs)
  qed
next
  case (init_clear k')
  show ?thesis
  proof (cases "k' = k")
    case False
    with init_clear show ?thesis
      by (intro stored_inv_frame [OF inv]) (auto simp: upd_defs split: wid.splits)
  next
    case True
    from init_clear True have "starting (app_at s)" by simp
    with fl [of k] have "worker_at s k = Not_Started" by (simp add: flag_inv_def)
    with init_clear True show ?thesis
      by (intro stored_inv_cleared) (auto simp: upd_defs)
  qed
next
  case (spawn k')
  then show ?thesis
    by (intro stored_inv_frame [OF inv]) (auto simp: upd_defs split: wid.splits if_splits)
next
  case (poll_done k')
  then show ?thesis
    by (intro stored_inv_frame [OF inv]) (auto simp: upd_defs split: wid.splits)
next
  case (poll_busy k')
  then show ?thesis
    by (intro stored_inv_frame [OF inv]) (auto simp: upd_defs split: wid.splits)
next
  case (update elapsed)
  then show ?thesis
    by (intro stored_inv_frame [OF inv]) (auto simp: upd_defs split: wid.splits)
next
  case (assign k')
  show ?thesis
  proof (cases "k' = k")
    case False
    with assign show ?thesis
      by (intro stored_inv_frame [OF inv]) (auto simp: upd_defs)
  next
    case True
    from assign True have "knows_done (app_at s) k" by simp
    then have "\<not> rendering (worker_at s k)" by (intro flag_inv_idle(1) [OF fl [of k]]) simp
    then have "worker_at s k \<noteq> Pixel y x" for y x by auto
    with assign True show ?thesis
      by (intro stored_inv_cleared) (auto simp: upd_defs)
  qed
next
  case (clear k')
  show ?thesis
  proof (cases "k' = k")
    case False
    with clear show ?thesis
      by (intro stored_inv_frame [OF inv]) (auto simp: upd_defs split: wid.splits)
  next
    case True
    from clear True have "knows_done (app_at s) k" by simp
    then have "\<not> rendering (worker_at s k)" by (intro flag_inv_idle(1) [OF fl [of k]]) simp
    then have "worker_at s k \<noteq> Pixel y x" for y x by auto
    with clear True show ?thesis
      by (intro stored_inv_cleared) (auto simp: upd_defs)
  qed
next
  case close
  then show ?thesis
    by (intro stored_inv_frame [OF inv]) (auto simp: upd_defs)
next
  case (stop k')
  then show ?thesis
    by (intro stored_inv_frame [OF inv]) (auto simp: upd_defs split: wid.splits)
next
  case (check k')
  then show ?thesis
    by (intro stored_inv_frame [OF inv]) (auto simp: upd_defs split: if_splits)
next
  case (idle k')
  then show ?thesis
    by (intro stored_inv_frame [OF inv]) (auto simp: upd_defs split: if_splits)
next
  case (begin_job k')
  then show ?thesis
    by (intro stored_inv_frame [OF inv]) (auto simp: upd_defs split: if_splits)
next
  case (row k' y)
  show ?thesis
  proof (cases "k' = k")
    case False
    with row show ?thesis
      by (intro stored_inv_frame [OF inv]) (auto simp: upd_defs)
  next
    case True
    from bi [of k] row(2) True have y0: "y_start (current_job (renderer s k)) \<le> y"
      by (simp add: band_inv_def)
    from row True have e: "renderer s' k = renderer s k" "written s' k = written s k"
      "raster s' = raster s" "app_at s' = app_at s" "worker_at s' k = Pixel y 0"
      by (simp_all add: upd_defs)
    from row(3) True
    have y1: "y < y_start (current_job (renderer s k)) + y_count (current_job (renderer s k))"
      by simp
    from inv [of k] y0 y1 show ?thesis
      unfolding stored_inv_def pixel_stored_def e by simp
  qed
next
  case (rows_done k' y)
  then show ?thesis
    by (intro stored_inv_frame [OF inv]) (auto simp: upd_defs split: if_splits)
next
  case (pixel k' y x t)
  from inv [of k'] pixel(2)
  have yb: "y_start (current_job (renderer s k')) \<le> y"
    "y < y_start (current_job (renderer s k')) + y_count (current_job (renderer s k'))"
    by (simp_all add: stored_inv_def)
  from pixel have e: "renderer s' = renderer s" "raster s' = t" "app_at s' = app_at s"
    by (simp_all add: upd_defs)
  show ?thesis
  proof (cases "k' = k")
    case True
    from pixel True have w: "written s' k = insert (x, y) (written s k)"
      "worker_at s' k = Pixel y (x + 1)"
      by (simp_all add: upd_defs)
    have xw: "x < to_size_t (texture_width (renderer s k))" using pixel(3) True by simp
    have rp: "render_pixel (renderer s k) (raster s) x y = Inr t" using pixel(4) True by simp
    have new: "(x, y) \<in> set (job_pixels (renderer s k) (current_job (renderer s k)))"
      using yb xw True by (simp add: band_pixels_iff)
    have c1: "(x', y') \<in> set (job_pixels (renderer s k) (current_job (renderer s k))) \<and>
              pixel_stored s' k x' y'"
      if a: "app_at s \<noteq> Clear k" "app_at s \<noteq> Init_Clear k"
        and m: "(x', y') \<in> insert (x, y) (written s k)" for x' y'
    proof (cases "(x', y') = (x, y)")
      case True
      then have "x' = x" "y' = y" by simp_all
      with new render_pixel_same [OF rp] show ?thesis
        by (simp add: pixel_stored_def e)
    next
      case False
      with m have "(x', y') \<in> written s k" by blast
      with inv [of k] a
      have b: "(x', y') \<in> set (job_pixels (renderer s k) (current_job (renderer s k)))"
        and p: "pixel_stored s k x' y'"
        by (simp_all add: stored_inv_def)
      from b have "x' < to_size_t (texture_width (renderer s k))" by (simp add: band_pixels_iff)
      from render_pixel_other [OF rp xw this False] p b show ?thesis
        by (simp add: pixel_stored_def e)
    qed
    from yb True have c2: "y_start (current_job (renderer s k)) \<le> y"
      "y < y_start (current_job (renderer s k)) + y_count (current_job (renderer s k))"
      by simp_all
    show ?thesis
      unfolding stored_inv_def e w using c1 c2 by simp
  next
    case False
    from pixel False have w: "written s' k = written s k" "worker_at s' k = worker_at s k"
      by (simp_all add: upd_defs)
    from fl [of k'] pixel(2) have ns: "\<not> starting (app_at s)"
      by (auto simp: flag_inv_def)
    have sw: "texture_width (renderer s k') = texture_width (renderer s k)"
      using ge by (rule same_width)
    have xw: "x < to_size_t (texture_width (renderer s k'))" using pixel(3) .
    have c1: "(x', y') \<in> set (job_pixels (renderer s k) (current_job (renderer s k))) \<and>
              pixel_stored s' k x' y'"
      if a: "app_at s \<noteq> Clear k" "app_at s \<noteq> Init_Clear k"
        and m: "(x', y') \<in> written s k" for x' y'
    proof -
      from inv [of k] a m
      have b: "(x', y') \<in> set (job_pixels (renderer s k) (current_job (renderer s k)))"
        and p: "pixel_stored s k x' y'"
        by (simp_all add: stored_inv_def)
      from b have x': "x' < to_size_t (texture_width (renderer s k'))"
        and y': "y_start (current_job (renderer s k)) \<le> y'"
          "y' < y_start (current_job (renderer s k)) + y_count (current_job (renderer s k))"
        by (simp_all add: band_pixels_iff sw)
      have "y \<noteq> y'" by (rule bands_apart [OF ge ns False y' yb])
      then have ne: "(x', y') \<noteq> (x, y)" by simp
      from render_pixel_other [OF pixel(4) xw x' ne] p b show ?thesis
        by (simp add: pixel_stored_def e sw)
    qed
    from inv [of k] have c2: "\<forall>y x. worker_at s k = Pixel y x \<longrightarrow>
            y_start (current_job (renderer s k)) \<le> y \<and>
            y < y_start (current_job (renderer s k)) + y_count (current_job (renderer s k))"
      by (simp add: stored_inv_def)
    show ?thesis
      unfolding stored_inv_def e w using c1 c2 by simp
  qed
next
  case (pixel_fault k' y x e)
  then show ?thesis
    by (intro stored_inv_frame [OF inv]) (auto simp: upd_defs split: if_splits)
next
  case (row_done k' y x)
  then show ?thesis
    by (intro stored_inv_frame [OF inv]) (auto simp: upd_defs split: if_splits)
next
  case (finish k')
  then show ?thesis
    by (intro stored_inv_frame [OF inv]) (auto simp: upd_defs split: if_splits)
next
  case (again k')
  then show ?thesis
    by (intro stored_inv_frame [OF inv]) (auto simp: upd_defs split: if_splits)
next
  case (leave k')
  then show ?thesis
    by (intro stored_inv_frame [OF inv]) (auto simp: upd_defs split: if_splits)
qed

lemma reachable_stored_inv: "reachable s \<Longrightarrow> stored_inv s k"
proof (induction arbitrary: k rule: reachable.induct)
  case (at_start ramp width height td j1 j2)
  show ?case by (rule stored_inv_initial)
next
  case (after_step s s')
  show ?case
    by (rule stored_inv_step [OF after_step.hyps(2) reachable_flag_inv [OF after_step.hyps(1)]
        reachable_geom_inv [OF after_step.hyps(1)] reachable_band_inv [OF after_step.hyps(1)]
        after_step.IH])
qed

lemma step_job_done:
  assumes "step s s'"
  shows "(job_done (renderer s' k) = job_done (renderer s k))
    \<or> (app_at s = Clear k \<and> app_at s' \<noteq> Clear k \<and> \<not> job_done (renderer s' k) \<and> written s' k = {})
    \<or> (app_at s = Init_Clear k \<and> app_at s' \<noteq> Init_Clear k \<and> \<not> job_done (renderer s' k)
        \<and> written s' k = {})
    \<or> (worker_at s k = Finish \<and> job_done (renderer s' k) \<and> written s' k = written s k
        \<and> current_job (renderer s' k) = current_job (renderer s k)
        \<and> texture_width (renderer s' k) = texture_width (renderer s k))"
  using assms
proof (cases rule: step.cases)
  case (init_clear k')
  then show ?thesis by (cases "k' = k") (auto simp: upd_defs split: wid.splits)
next
  case (clear k')
  then show ?thesis by (cases "k' = k") (auto simp: upd_defs split: wid.splits)
next
  case (finish k')
  then show ?thesis by (cases "k' = k") (auto simp: upd_defs)
qed (auto simp: upd_defs)

lemma smoothed_nonneg:
  assumes "2 \<le> cmod z" "cmod z \<le> 1000"
  shows "0 \<le> smoothed z i"
proof -
  have l2: "0 < ln (2::real)" by simp
  have lz: "ln 2 \<le> ln (cmod z)"
    by (subst ln_le_cancel_iff) (use assms in auto)
  have lpos: "0 < ln (cmod z)" using lz l2 by linarith
  have "ln (cmod z) \<le> ln 1000"
    by (subst ln_le_cancel_iff) (use assms in auto)
  then have "ln (ln (cmod z)) \<le> ln (ln 1000)"
    by (subst ln_le_cancel_iff) (use lpos in auto)
  then have "0 \<le> (ln (ln (real max_iterations)) - ln (ln (cmod z))) / ln 2"
    using l2 by (simp add: max_iterations_def del: ln_gt_zero_iff)
  then show ?thesis by (simp add: smoothed_def)
qed

lemma first_pixel_rendered:
  assumes "length ramp0 = 100" "3 \<le> length td"
  shows "\<exists>t. render_pixel
      (new_renderer (build_ramp ramp0) (real 1) (real 2) j
         \<lparr>current_job := job_for Worker (first_jobs 2), job_done := False\<rparr>) td 0 0 = Inr t"
proof -
  let ?w = "new_renderer (build_ramp ramp0) (real 1) (real 2) j
         \<lparr>current_job := job_for Worker (first_jobs 2), job_done := False\<rparr>"
  let ?c = "Complex (- 2 + 0.001643721971153) (- 2 + 0.822467633298876)"
  have c: "pixel_c (texture_width ?w) (texture_height ?w) (current_job ?w) 0 0 = ?c"
    by (simp add: new_renderer_def job_for_def first_jobs_def Let_def pixel_c_def start_offset_def
        complex_eq_iff)
  have big: "4 \<le> Re ?c * Re ?c + Im ?c * Im ?c" by simp
  have e: "escape (pixel_c (texture_width ?w) (texture_height ?w) (current_job ?w) 0 0) = (?c, 1)"
    unfolding c using big by (rule escape_one_step)
  have out: "\<not> inside ?c 1" using big by (simp add: inside_def max_iterations_def)
  have "(Re ?c)\<^sup>2 + (Im ?c)\<^sup>2 \<le> 1000\<^sup>2" by (simp add: power2_eq_square)
  then have "sqrt ((Re ?c)\<^sup>2 + (Im ?c)\<^sup>2) \<le> 1000" by (intro real_le_lsqrt) simp_all
  then have "cmod ?c \<le> 1000" unfolding cmod_def .
  with outside_cmod [OF out] have s: "0 \<le> smoothed ?c 1" by (intro smoothed_nonneg)
  have w: "texture_width ?w \<noteq> 0" "texture_height ?w \<noteq> 0" by (simp_all add: new_renderer_def)
  have ramp: "color_ramp ?w = build_ramp ramp0" by (simp add: new_renderer_def)
  have bound: "(0 * to_size_t (texture_width ?w) + 0) * 3 + 2 < length td" using assms(2) by simp
  from render_outside_pixel [OF w ramp assms(1) e out s refl refl refl refl bound]
  show ?thesis by blast
qed

lemma first_job_rows:
  "y_start (job_for Worker (first_jobs 2)) = 0" "y_count (job_for Worker (first_jobs 2)) = 1"
  by (simp_all add: job_for_def first_jobs_def Let_def)

lemma worker_finishes_first_job:
  "\<exists>s. reachable s \<and> app_at s = Poll Worker \<and> job_done (renderer s Worker)
     \<and> set (job_pixels (renderer s Worker) (current_job (renderer s Worker))) = {(0, 0)}
     \<and> texture_width (renderer s Worker) = 1 \<and> texture_height (renderer s Worker) = 2
     \<and> color_ramp (renderer s Worker) = build_ramp (replicate 100 (Color 0 0 0))
     \<and> scale (current_job (renderer s Worker)) = 2
     \<and> offset (current_job (renderer s Worker)) = start_offset"
proof -
  define j0 where "j0 = \<lparr>y_start = 0, y_count = 0, scale = 0, offset = 0\<rparr>"
  define s0 where "s0 = initial (build_ramp (replicate 100 (Color 0 0 0))) 1 2 (replicate 6 0) j0 j0"
  have r0: "reachable s0" unfolding s0_def by (rule reachable.at_start)
  have f0: "app_at s0 = Init_Assign Worker" "worker_at s0 Worker = Not_Started"
    "renderer s0 Worker = new_renderer (build_ramp (replicate 100 (Color 0 0 0))) (real 1) (real 2) j0" "written s0 Worker = {}" "length (raster s0) = 6"
    "app_jobs s0 = first_jobs 2"
    by (simp_all add: s0_def initial_def)
  have W: "to_size_t (texture_width (new_renderer (build_ramp (replicate 100 (Color 0 0 0))) (real 1) (real 2) j0\<lparr>current_job := job_for Worker (first_jobs 2), job_done := False\<rparr>)) = 1"
    by (simp add: new_renderer_def to_size_t_def c_trunc_def)
  define s1 where "s1 = set_current_job Worker (job_for Worker (app_jobs s0)) (s0\<lparr>app_at := Init_Clear Worker\<rparr>)"
  have c1: "app_at s0 = Init_Assign Worker"
    by (simp_all add: f0 first_job_rows new_renderer_def to_size_t_def c_trunc_def)
  have r1: "reachable s1"
    unfolding s1_def by (rule reachable.after_step [OF r0 step.init_assign [of s0 Worker]]) (rule c1)+
  have f1: "app_at s1 = Init_Clear Worker" "worker_at s1 Worker = Not_Started"
    "renderer s1 Worker = new_renderer (build_ramp (replicate 100 (Color 0 0 0))) (real 1) (real 2) j0\<lparr>current_job := job_for Worker (first_jobs 2)\<rparr>" "written s1 Worker = {}" "length (raster s1) = 6"
    "app_jobs s1 = first_jobs 2"
    by (simp_all add: s1_def upd_defs f0 first_job_rows)
  define s2 where "s2 = set_job_done Worker False (s1\<lparr>app_at := (case Worker of Worker \<Rightarrow> Init_Assign Worker2 | Worker2 \<Rightarrow> Spawn Worker), written := (written s1)(Worker := {})\<rparr>)"
  have c2: "app_at s1 = Init_Clear Worker"
    by (simp_all add: f1 first_job_rows new_renderer_def to_size_t_def c_trunc_def)
  have r2: "reachable s2"
    unfolding s2_def by (rule reachable.after_step [OF r1 step.init_clear [of s1 Worker]]) (rule c2)+
  have f2: "app_at s2 = Init_Assign Worker2" "worker_at s2 Worker = Not_Started"
    "renderer s2 Worker = new_renderer (build_ramp (replicate 100 (Color 0 0 0))) (real 1) (real 2) j0\<lparr>current_job := job_for Worker (first_jobs 2), job_done := False\<rparr>" "written s2 Worker = {}" "length (raster s2) = 6"
    "app_jobs s2 = first_jobs 2"
    by (simp_all add: s2_def upd_defs f1 first_job_rows)
  define s3 where "s3 = set_current_job Worker2 (job_for Worker2 (app_jobs s2)) (s2\<lparr>app_at := Init_Clear Worker2\<rparr>)"
  have c3: "app_at s2 = Init_Assign Worker2"
    by (simp_all add: f2 first_job_rows new_renderer_def to_size_t_def c_trunc_def)
  have r3: "reachable s3"
    unfolding s3_def by (rule reachable.after_step [OF r2 step.init_assign [of s2 Worker2]]) (rule c3)+
  have f3: "app_at s3 = Init_Clear Worker2" "worker_at s3 Worker = Not_Started"
    "renderer s3 Worker = new_renderer (build_ramp (replicate 100 (Color 0 0 0))) (real 1) (real 2) j0\<lparr>current_job := job_for Worker (first_jobs 2), job_done := False\<rparr>" "written s3 Worker = {}" "length (raster s3) = 6"
    "app_jobs s3 = first_jobs 2"
    by (simp_all add: s3_def upd_defs f2 first_job_rows)
  define s4 where "s4 = set_job_done Worker2 False (s3\<lparr>app_at := (case Worker2 of Worker \<Rightarrow> Init_Assign Worker2 | Worker2 \<Rightarrow> Spawn Worker), written := (written s3)(Worker2 := {})\<rparr>)"
  have c4: "app_at s3 = Init_Clear Worker2"
    by (simp_all add: f3 first_job_rows new_renderer_def to_size_t_def c_trunc_def)
  have r4: "reachable s4"
    unfolding s4_def by (rule reachable.after_step [OF r3 step.init_clear [of s3 Worker2]]) (rule c4)+
  have f4: "app_at s4 = Spawn Worker" "worker_at s4 Worker = Not_Started"
    "renderer s4 Worker = new_renderer (build_ramp (replicate 100 (Color 0 0 0))) (real 1) (real 2) j0\<lparr>current_job := job_for Worker (first_jobs 2), job_done := False\<rparr>" "written s4 Worker = {}" "length (raster s4) = 6"
    "app_jobs s4 = first_jobs 2"
    by (simp_all add: s4_def upd_defs f3 first_job_rows)
  define s5 where "s5 = goto Worker Check (s4\<lparr>app_at := (case Worker of Worker \<Rightarrow> Spawn Worker2 | Worker2 \<Rightarrow> Poll Worker)\<rparr>)"
  have c5: "app_at s4 = Spawn Worker"
    by (simp_all add: f4 first_job_rows new_renderer_def to_size_t_def c_trunc_def)
  have r5: "reachable s5"
    unfolding s5_def by (rule reachable.after_step [OF r4 step.spawn [of s4 Worker]]) (rule c5)+
  have f5: "app_at s5 = Spawn Worker2" "worker_at s5 Worker = Check"
    "renderer s5 Worker = new_renderer (build_ramp (replicate 100 (Color 0 0 0))) (real 1) (real 2) j0\<lparr>current_job := job_for Worker (first_jobs 2), job_done := False\<rparr>" "written s5 Worker = {}" "length (raster s5) = 6"
    "app_jobs s5 = first_jobs 2"
    by (simp_all add: s5_def upd_defs f4 first_job_rows)
  define s6 where "s6 = goto Worker2 Check (s5\<lparr>app_at := (case Worker2 of Worker \<Rightarrow> Spawn Worker2 | Worker2 \<Rightarrow> Poll Worker)\<rparr>)"
  have c6: "app_at s5 = Spawn Worker2"
    by (simp_all add: f5 first_job_rows new_renderer_def to_size_t_def c_trunc_def)
  have r6: "reachable s6"
    unfolding s6_def by (rule reachable.after_step [OF r5 step.spawn [of s5 Worker2]]) (rule c6)+
  have f6: "app_at s6 = Poll Worker" "worker_at s6 Worker = Check"
    "renderer s6 Worker = new_renderer (build_ramp (replicate 100 (Color 0 0 0))) (real 1) (real 2) j0\<lparr>current_job := job_for Worker (first_jobs 2), job_done := False\<rparr>" "written s6 Worker = {}" "length (raster s6) = 6"
    "app_jobs s6 = first_jobs 2"
    by (simp_all add: s6_def upd_defs f5 first_job_rows)
  define s7 where "s7 = goto Worker (Branch (job_done (renderer s6 Worker))) s6"
  have c7: "worker_at s6 Worker = Check"
    by (simp_all add: f6 first_job_rows new_renderer_def to_size_t_def c_trunc_def)
  have r7: "reachable s7"
    unfolding s7_def by (rule reachable.after_step [OF r6 step.check [of s6 Worker]]) (rule c7)+
  have f7: "app_at s7 = Poll Worker" "worker_at s7 Worker = Branch False"
    "renderer s7 Worker = new_renderer (build_ramp (replicate 100 (Color 0 0 0))) (real 1) (real 2) j0\<lparr>current_job := job_for Worker (first_jobs 2), job_done := False\<rparr>" "written s7 Worker = {}" "length (raster s7) = 6"
    "app_jobs s7 = first_jobs 2"
    by (simp_all add: s7_def upd_defs f6 first_job_rows)
  define s8 where "s8 = goto Worker (Row (y_start (current_job (renderer s7 Worker)))) s7"
  have c8: "worker_at s7 Worker = Branch False"
    by (simp_all add: f7 first_job_rows new_renderer_def to_size_t_def c_trunc_def)
  have r8: "reachable s8"
    unfolding s8_def by (rule reachable.after_step [OF r7 step.begin_job [of s7 Worker]]) (rule c8)+
  have f8: "app_at s8 = Poll Worker" "worker_at s8 Worker = Row 0"
    "renderer s8 Worker = new_renderer (build_ramp (replicate 100 (Color 0 0 0))) (real 1) (real 2) j0\<lparr>current_job := job_for Worker (first_jobs 2), job_done := False\<rparr>" "written s8 Worker = {}" "length (raster s8) = 6"
    "app_jobs s8 = first_jobs 2"
    by (simp_all add: s8_def upd_defs f7 first_job_rows)
  define s9 where "s9 = goto Worker (Pixel 0 0) s8"
  have c9: "worker_at s8 Worker = Row 0" "0 < y_start (current_job (renderer s8 Worker)) + y_count (current_job (renderer s8 Worker))"
    by (simp_all add: f8 first_job_rows new_renderer_def to_size_t_def c_trunc_def)
  have r9: "reachable s9"
    unfolding s9_def by (rule reachable.after_step [OF r8 step.row [of s8 Worker 0]]) (rule c9)+
  have f9: "app_at s9 = Poll Worker" "worker_at s9 Worker = Pixel 0 0"
    "renderer s9 Worker = new_renderer (build_ramp (replicate 100 (Color 0 0 0))) (real 1) (real 2) j0\<lparr>current_job := job_for Worker (first_jobs 2), job_done := False\<rparr>" "written s9 Worker = {}" "length (raster s9) = 6"
    "app_jobs s9 = first_jobs 2"
    by (simp_all add: s9_def upd_defs f8 first_job_rows)
  have "\<exists>t. render_pixel (renderer s9 Worker) (raster s9) 0 0 = Inr t"
    unfolding f9(3) by (rule first_pixel_rendered) (simp_all add: f9)
  then obtain t where t: "render_pixel (renderer s9 Worker) (raster s9) 0 0 = Inr t" by blast
  have tl: "length t = 6" using t f9(5) by (auto simp: render_pixel_Inr)
  define s10 where "s10 = goto Worker (Pixel 0 (0 + 1)) (s9\<lparr>raster := t, written := (written s9)(Worker := insert (0, 0) (written s9 Worker))\<rparr>)"
  have c10: "worker_at s9 Worker = Pixel 0 0" "0 < to_size_t (texture_width (renderer s9 Worker))" "render_pixel (renderer s9 Worker) (raster s9) 0 0 = Inr t"
    using t by (simp_all add: f9 first_job_rows new_renderer_def to_size_t_def c_trunc_def)
  have r10: "reachable s10"
    unfolding s10_def by (rule reachable.after_step [OF r9 step.pixel [of s9 Worker 0 0 t]]) (rule c10)+
  have f10: "app_at s10 = Poll Worker" "worker_at s10 Worker = Pixel 0 (0 + 1)"
    "renderer s10 Worker = new_renderer (build_ramp (replicate 100 (Color 0 0 0))) (real 1) (real 2) j0\<lparr>current_job := job_for Worker (first_jobs 2), job_done := False\<rparr>" "written s10 Worker = {(0, 0)}" "length (raster s10) = 6"
    "app_jobs s10 = first_jobs 2"
    by (simp_all add: s10_def upd_defs f9 first_job_rows tl)
  define s11 where "s11 = goto Worker (Row (0 + 1)) s10"
  have c11: "worker_at s10 Worker = Pixel 0 (0 + 1)" "\<not> 0 + 1 < to_size_t (texture_width (renderer s10 Worker))"
    by (simp_all add: f10 first_job_rows new_renderer_def to_size_t_def c_trunc_def)
  have r11: "reachable s11"
    unfolding s11_def by (rule reachable.after_step [OF r10 step.row_done [of s10 Worker 0 "0 + 1"]]) (rule c11)+
  have f11: "app_at s11 = Poll Worker" "worker_at s11 Worker = Row (0 + 1)"
    "renderer s11 Worker = new_renderer (build_ramp (replicate 100 (Color 0 0 0))) (real 1) (real 2) j0\<lparr>current_job := job_for Worker (first_jobs 2), job_done := False\<rparr>" "written s11 Worker = {(0, 0)}" "length (raster s11) = 6"
    "app_jobs s11 = first_jobs 2"
    by (simp_all add: s11_def upd_defs f10 first_job_rows)
  define s12 where "s12 = goto Worker Finish s11"
  have c12: "worker_at s11 Worker = Row (0 + 1)" "\<not> 0 + 1 < y_start (current_job (renderer s11 Worker)) + y_count (current_job (renderer s11 Worker))"
    by (simp_all add: f11 first_job_rows new_renderer_def to_size_t_def c_trunc_def)
  have r12: "reachable s12"
    unfolding s12_def by (rule reachable.after_step [OF r11 step.rows_done [of s11 Worker "0 + 1"]]) (rule c12)+
  have f12: "app_at s12 = Poll Worker" "worker_at s12 Worker = Finish"
    "renderer s12 Worker = new_renderer (build_ramp (replicate 100 (Color 0 0 0))) (real 1) (real 2) j0\<lparr>current_job := job_for Worker (first_jobs 2), job_done := False\<rparr>" "written s12 Worker = {(0, 0)}" "length (raster s12) = 6"
    "app_jobs s12 = first_jobs 2"
    by (simp_all add: s12_def upd_defs f11 first_job_rows)
  define s13 where "s13 = goto Worker Read_Running (set_job_done Worker True s12)"
  have c13: "worker_at s12 Worker = Finish"
    by (simp_all add: f12 first_job_rows new_renderer_def to_size_t_def c_trunc_def)
  have r13: "reachable s13"
    unfolding s13_def by (rule reachable.after_step [OF r12 step.finish [of s12 Worker]]) (rule c13)+
  have f13: "app_at s13 = Poll Worker" "worker_at s13 Worker = Read_Running"
    "renderer s13 Worker = new_renderer (build_ramp (replicate 100 (Color 0 0 0))) (real 1) (real 2) j0\<lparr>current_job := job_for Worker (first_jobs 2), job_done := True\<rparr>" "written s13 Worker = {(0, 0)}" "length (raster s13) = 6"
    "app_jobs s13 = first_jobs 2"
    by (simp_all add: s13_def upd_defs f12 first_job_rows)
  have band: "set (job_pixels (renderer s13 Worker) (current_job (renderer s13 Worker))) = {(0, 0)}"
    unfolding f13(3) by (auto simp: band_pixels_iff first_job_rows new_renderer_def to_size_t_def c_trunc_def)
  have d: "job_done (renderer s13 Worker)" by (simp add: f13)
  have w: "texture_width (renderer s13 Worker) = 1" "texture_height (renderer s13 Worker) = 2"
    "color_ramp (renderer s13 Worker) = build_ramp (replicate 100 (Color 0 0 0))"
    "scale (current_job (renderer s13 Worker)) = 2"
    "offset (current_job (renderer s13 Worker)) = start_offset"
    by (simp_all add: f13 new_renderer_def job_for_def first_jobs_def Let_def)
  from r13 f13(1) d band w show ?thesis by blast
qed

lemma job_done_stored:
  assumes "reachable s" "job_done (renderer s k)" "app_at s \<noteq> Clear k"
  shows "set (job_pixels (renderer s k) (current_job (renderer s k))) \<subseteq> written s k"
    and "\<forall>x y. (x, y) \<in> set (job_pixels (renderer s k) (current_job (renderer s k))) \<longrightarrow>
           pixel_bytes (texture_width (renderer s k)) (texture_height (renderer s k))
             (color_ramp (renderer s k)) (scale (current_job (renderer s k)))
             (offset (current_job (renderer s k))) x y
           = Inr (pixel_at (to_size_t (texture_width (renderer s k))) (raster s) x y)"
proof -
  note f = reachable_flag_inv [OF assms(1), of k] and b = reachable_band_inv [OF assms(1), of k]
    and i = reachable_stored_inv [OF assms(1), of k]
  from b assms(2,3)
  show w: "set (job_pixels (renderer s k) (current_job (renderer s k))) \<subseteq> written s k"
    by (simp add: band_inv_def band_written_def)
  from f assms(2) have "\<not> starting (app_at s)" by (auto simp: flag_inv_def)
  then have "app_at s \<noteq> Init_Clear k" by auto
  with i assms(3)
  have "\<forall>x y. (x, y) \<in> written s k \<longrightarrow> pixel_stored s k x y"
    by (simp add: stored_inv_def)
  with w show "\<forall>x y. (x, y) \<in> set (job_pixels (renderer s k) (current_job (renderer s k))) \<longrightarrow>
           pixel_bytes (texture_width (renderer s k)) (texture_height (renderer s k))
             (color_ramp (renderer s k)) (scale (current_job (renderer s k)))
             (offset (current_job (renderer s k))) x y
           = Inr (pixel_at (to_size_t (texture_width (renderer s k))) (raster s) x y)"
    unfolding pixel_stored_def by blast
qed

lemma step_flag_rises:
  assumes "step s s'" "\<not> job_done (renderer s k)" "job_done (renderer s' k)"
  shows "worker_at s k = Finish" "app_at s' = app_at s"
  using assms
  by (cases rule: step.cases; auto simp: upd_defs split: if_splits)+

text \<open>
  C9. In every state of every run of the program (the threads of \<^verbatim>\<open>Application::run\<close>,
  interleaved in any order), for each worker: when \<^verbatim>\<open>job_done\<close> is true and the
  application is not between lines 53 and 55 of a \<^verbatim>\<open>setJob\<close> for that worker, every
  pixel of the worker's current job (its rows \<open>[y_start, y_start + y_count)\<close>, all
  columns \<open>[0, W)\<close>) has been written by the worker since the flag was last cleared, and
  the three bytes of that pixel in the shared raster are the bytes that the worker's
  loop body computes for it from the current job, whatever the other worker has stored
  since; in particular this holds whenever \<^verbatim>\<open>jobDone()\<close> returns true. The flag goes
  from true to false only in the critical section of \<^verbatim>\<open>setJob\<close>, which leaves it false
  with no pixel written yet, and from false to true only in the worker's step of lines
  128 and 129, when the band is complete and stored in the raster.
\<close>

theorem job_done_protocol:
  assumes "reachable s"
  shows "(job_done (renderer s k) \<and> app_at s \<noteq> Clear k \<longrightarrow>
           set (job_pixels (renderer s k) (current_job (renderer s k))) \<subseteq> written s k
           \<and> (\<forall>x y. (x, y) \<in> set (job_pixels (renderer s k) (current_job (renderer s k))) \<longrightarrow>
                 pixel_bytes (texture_width (renderer s k)) (texture_height (renderer s k))
                   (color_ramp (renderer s k)) (scale (current_job (renderer s k)))
                   (offset (current_job (renderer s k))) x y
                 = Inr (pixel_at (to_size_t (texture_width (renderer s k))) (raster s) x y)))
    \<and> (app_at s = Poll k \<and> job_done (renderer s k) \<longrightarrow>
           set (job_pixels (renderer s k) (current_job (renderer s k))) \<subseteq> written s k
           \<and> (\<forall>x y. (x, y) \<in> set (job_pixels (renderer s k) (current_job (renderer s k))) \<longrightarrow>
                 pixel_bytes (texture_width (renderer s k)) (texture_height (renderer s k))
                   (color_ramp (renderer s k)) (scale (current_job (renderer s k)))
                   (offset (current_job (renderer s k))) x y
                 = Inr (pixel_at (to_size_t (texture_width (renderer s k))) (raster s) x y)))
    \<and> (\<forall>s'. step s s' \<longrightarrow>
          (job_done (renderer s k) \<and> \<not> job_done (renderer s' k) \<longrightarrow>
             app_at s = Clear k \<and> app_at s' \<noteq> Clear k \<and> written s' k = {})
        \<and> (\<not> job_done (renderer s k) \<and> job_done (renderer s' k) \<longrightarrow>
             worker_at s k = Finish \<and>
             set (job_pixels (renderer s' k) (current_job (renderer s' k))) \<subseteq> written s' k
             \<and> (\<forall>x y. (x, y) \<in> set (job_pixels (renderer s' k) (current_job (renderer s' k))) \<longrightarrow>
                   pixel_bytes (texture_width (renderer s' k)) (texture_height (renderer s' k))
                     (color_ramp (renderer s' k)) (scale (current_job (renderer s' k)))
                     (offset (current_job (renderer s' k))) x y
                   = Inr (pixel_at (to_size_t (texture_width (renderer s' k))) (raster s') x y)))
        \<and> ((app_at s = Clear k \<or> app_at s = Init_Clear k) \<and> app_at s' \<noteq> app_at s \<longrightarrow>
             \<not> job_done (renderer s' k) \<and> written s' k = {}))"
    (is "?A \<and> ?B \<and> ?C")
proof -
  note f = reachable_flag_inv [OF assms, of k]
  note a = job_done_stored [OF assms, of k]
  have c: "(job_done (renderer s k) \<and> \<not> job_done (renderer s' k) \<longrightarrow>
             app_at s = Clear k \<and> app_at s' \<noteq> Clear k \<and> written s' k = {})
        \<and> (\<not> job_done (renderer s k) \<and> job_done (renderer s' k) \<longrightarrow>
             worker_at s k = Finish \<and>
             set (job_pixels (renderer s' k) (current_job (renderer s' k))) \<subseteq> written s' k
             \<and> (\<forall>x y. (x, y) \<in> set (job_pixels (renderer s' k) (current_job (renderer s' k))) \<longrightarrow>
                   pixel_bytes (texture_width (renderer s' k)) (texture_height (renderer s' k))
                     (color_ramp (renderer s' k)) (scale (current_job (renderer s' k)))
                     (offset (current_job (renderer s' k))) x y
                   = Inr (pixel_at (to_size_t (texture_width (renderer s' k))) (raster s') x y)))
        \<and> ((app_at s = Clear k \<or> app_at s = Init_Clear k) \<and> app_at s' \<noteq> app_at s \<longrightarrow>
             \<not> job_done (renderer s' k) \<and> written s' k = {})" (is "?D s'") if st: "step s s'" for s'
  proof -
    have r': "reachable s'" using assms st by (rule reachable.after_step)
    have nd: "\<not> job_done (renderer s k)" if "app_at s = Init_Clear k"
      using f that by (auto simp: flag_inv_def)
    have fall: "app_at s = Clear k \<and> app_at s' \<noteq> Clear k \<and> written s' k = {}"
      if "job_done (renderer s k)" "\<not> job_done (renderer s' k)"
      using step_job_done [OF st, of k] that nd by auto
    have rise: "worker_at s k = Finish \<and>
             set (job_pixels (renderer s' k) (current_job (renderer s' k))) \<subseteq> written s' k
             \<and> (\<forall>x y. (x, y) \<in> set (job_pixels (renderer s' k) (current_job (renderer s' k))) \<longrightarrow>
                   pixel_bytes (texture_width (renderer s' k)) (texture_height (renderer s' k))
                     (color_ramp (renderer s' k)) (scale (current_job (renderer s' k)))
                     (offset (current_job (renderer s' k))) x y
                   = Inr (pixel_at (to_size_t (texture_width (renderer s' k))) (raster s') x y))"
      if n: "\<not> job_done (renderer s k)" and d: "job_done (renderer s' k)"
    proof -
      note e = step_flag_rises [OF st n d]
      from f n have "app_at s \<noteq> Clear k" by (auto simp: flag_inv_def)
      with e(2) have "app_at s' \<noteq> Clear k" by simp
      from e(1) job_done_stored [OF r' d this] show ?thesis by blast
    qed
    have pub: "\<not> job_done (renderer s' k) \<and> written s' k = {}"
      if "app_at s = Clear k \<or> app_at s = Init_Clear k" "app_at s' \<noteq> app_at s"
      using st that
      by (cases rule: step.cases) (auto simp: upd_defs split: wid.splits)
    from fall rise pub show ?thesis by blast
  qed
  from a have a1: ?A by blast
  then have p1: ?B by simp
  have c1: ?C
  proof (intro allI impI)
    fix s' assume "step s s'"
    then show "?D s'" by (rule c)
  qed
  show ?thesis by (rule conjI [OF a1 conjI [OF p1 c1]])
qed

theorem job_done_protocol_witness:
  "\<exists>s. reachable s \<and> app_at s = Poll Worker \<and> job_done (renderer s Worker)
     \<and> set (job_pixels (renderer s Worker) (current_job (renderer s Worker))) = {(0, 0)}
     \<and> (0, 0) \<in> written s Worker
     \<and> pixel_bytes 1 2 (build_ramp (replicate 100 (Color 0 0 0))) 2 start_offset 0 0
         = Inr (raster s ! 0, raster s ! 1, raster s ! 2)"
proof -
  from worker_finishes_first_job obtain s where
    r: "reachable s" and a: "app_at s = Poll Worker" and d: "job_done (renderer s Worker)"
    and b: "set (job_pixels (renderer s Worker) (current_job (renderer s Worker))) = {(0, 0)}"
    and w: "texture_width (renderer s Worker) = 1" "texture_height (renderer s Worker) = 2"
      "color_ramp (renderer s Worker) = build_ramp (replicate 100 (Color 0 0 0))"
      "scale (current_job (renderer s Worker)) = 2"
      "offset (current_job (renderer s Worker)) = start_offset"
    by blast
  from job_done_protocol [OF r, of Worker] a d
  have p: "set (job_pixels (renderer s Worker) (current_job (renderer s Worker))) \<subseteq> written s Worker"
    and q: "\<forall>x y. (x, y) \<in> set (job_pixels (renderer s Worker) (current_job (renderer s Worker))) \<longrightarrow>
           pixel_bytes (texture_width (renderer s Worker)) (texture_height (renderer s Worker))
             (color_ramp (renderer s Worker)) (scale (current_job (renderer s Worker)))
             (offset (current_job (renderer s Worker))) x y
           = Inr (pixel_at (to_size_t (texture_width (renderer s Worker))) (raster s) x y)"
    by blast+
  from p b have m: "(0, 0) \<in> written s Worker" by simp
  from q b have "pixel_bytes 1 2 (build_ramp (replicate 100 (Color 0 0 0))) 2 start_offset 0 0
         = Inr (pixel_at (to_size_t 1) (raster s) 0 0)"
    unfolding w by simp
  then have "pixel_bytes 1 2 (build_ramp (replicate 100 (Color 0 0 0))) 2 start_offset 0 0
         = Inr (raster s ! 0, raster s ! 1, raster s ! 2)"
    by (simp add: pixel_at_def numeral_2_eq_2)
  with r a d b m show ?thesis by blast
qed

end
